theory Spec2Isabelle
  imports Main "HOL-Library.Char_ord" "HOL-Library.List_Lexorder" "HOL-Library.Product_Lexorder"
    "HOL-Library.Sublist" "HOL-Library.AList"
begin


section \<open>Text\<close>

text \<open>
  A Python \<open>str\<close> is a sequence of code points. It is modelled as a \<open>string\<close>
  whose characters are the code points 0 to 255 (\<open>of_char c\<close> is the code point), so
  the separator U+00B7 of the card titles is the character \<open>CHR 0xB7\<close>.
  The character classes are those of CPython on that range:
  \<open>\<bslash>s\<close> and \<open>str.strip()\<close> use \<open>Py_UNICODE_ISSPACE\<close>, \<open>\<bslash>w\<close> is
  \<open>Py_UNICODE_ISALNUM\<close> or the underscore.
\<close>

definition is_space :: "char \<Rightarrow> bool" where
  "is_space c = (let n = (of_char c :: nat) in
     (9 \<le> n \<and> n \<le> 13) \<or> (28 \<le> n \<and> n \<le> 32) \<or> n = 133 \<or> n = 160)"

definition is_alnum :: "char \<Rightarrow> bool" where
  "is_alnum c = (let n = (of_char c :: nat) in
     (48 \<le> n \<and> n \<le> 57) \<or> (65 \<le> n \<and> n \<le> 90) \<or> (97 \<le> n \<and> n \<le> 122) \<or>
     n = 170 \<or> n = 178 \<or> n = 179 \<or> n = 181 \<or> n = 185 \<or> n = 186 \<or>
     (188 \<le> n \<and> n \<le> 190) \<or> (192 \<le> n \<and> n \<le> 214) \<or> (216 \<le> n \<and> n \<le> 246) \<or>
     (248 \<le> n \<and> n \<le> 255))"

definition is_word :: "char \<Rightarrow> bool" where
  "is_word c = (is_alnum c \<or> c = CHR ''_'')"

text \<open>\<open>s.strip()\<close>: whitespace removed at both ends.\<close>

definition strip :: "string \<Rightarrow> string" where
  "strip s = rev (dropWhile is_space (rev (dropWhile is_space s)))"

text \<open>\<open>s.split(sep)\<close> for a separator of one character: never an empty list.\<close>

fun split :: "char \<Rightarrow> string \<Rightarrow> string list" where
  "split sep [] = [[]]"
| "split sep (c # cs) =
     (if c = sep then [] # split sep cs
      else (case split sep cs of p # ps \<Rightarrow> (c # p) # ps | [] \<Rightarrow> [[c]]))"

text \<open>\<open>str(n)\<close> for a natural number: its decimal digits.\<close>

definition digit :: "nat \<Rightarrow> char" where
  "digit d = char_of (48 + d)"

fun str :: "nat \<Rightarrow> string" where
  "str n = (if n < 10 then [digit n] else str (n div 10) @ [digit (n mod 10)])"

declare str.simps [simp del]

text \<open>The separator of card titles, U+00B7 (middle dot), and the line feed.\<close>

definition middle_dot :: char where
  "middle_dot = CHR 0xB7"

definition newline :: char where
  "newline = CHR 0x0A"

section \<open>Titles and set codes\<close>

text \<open>\<open>re.search(r'#(\<bslash>w+)', title)\<close>: group 1 of the leftmost match, if any.\<close>

fun search_number :: "string \<Rightarrow> string option" where
  "search_number [] = None"
| "search_number (c # cs) =
     (if c = CHR ''#'' \<and> takeWhile is_word cs \<noteq> [] then Some (takeWhile is_word cs)
      else search_number cs)"

text \<open>\<open>re.sub(r'[^\<bslash>w\<bslash>s-]', '', s)\<close>\<close>

definition clean_name :: "string \<Rightarrow> string" where
  "clean_name s = filter (\<lambda>c. is_word c \<or> is_space c \<or> c = CHR ''-'') s"

text \<open>
  \<open>parse_card_title\<close>: the name is \<open>parts[0].strip() if parts else "Unknown"\<close>, then
  cleaned and stripped again; the number is \<open>"0"\<close> unless the search matches.
\<close>

definition parse_card_title :: "string \<Rightarrow> string \<times> string" where
  "parse_card_title title =
     (let parts = split middle_dot title;
          pokemon_name = (case parts of p # _ \<Rightarrow> strip p | [] \<Rightarrow> ''Unknown'');
          card_number = (case search_number title of Some n \<Rightarrow> n | None \<Rightarrow> ''0'')
      in (strip (clean_name pokemon_name), card_number))"

text \<open>
  \<open>re.search(r'\<bslash>(([^)]+)\<bslash>)$', s)\<close>: group 1 of the leftmost match. After an
  opening parenthesis the class \<open>[^)]+\<close> takes every character up to the next closing
  one; \<open>$\<close> matches at the end of the string, or before a line feed that ends it.
\<close>

fun search_code :: "string \<Rightarrow> string option" where
  "search_code [] = None"
| "search_code (c # cs) =
     (if c = CHR ''(''
         \<and> takeWhile (\<lambda>x. x \<noteq> CHR '')'') cs \<noteq> []
         \<and> (dropWhile (\<lambda>x. x \<noteq> CHR '')'') cs = [CHR '')'']
            \<or> dropWhile (\<lambda>x. x \<noteq> CHR '')'') cs = [CHR '')'', newline])
      then Some (takeWhile (\<lambda>x. x \<noteq> CHR '')'') cs)
      else search_code cs)"

definition extract_set_code :: "string \<Rightarrow> string" where
  "extract_set_code set_name =
     (case search_code (strip set_name) of Some code \<Rightarrow> code | None \<Rightarrow> ''UNKNOWN'')"

section \<open>Pages, cards and the scraper's state\<close>

text \<open>
  What BeautifulSoup finds in a page is part of the response: the anchors that carry an
  \<open>href\<close> (its value and the anchor's text), the articles of class
  \<open>type-pkmn_card entry\<close>, and the raw bytes. In an article, \<open>find\<close> gives the first
  link of class \<open>card-image-link\<close> or nothing, in the link the first image of class
  \<open>card-image\<close> or nothing; an attribute may be absent.
\<close>

datatype img_tag = Img (src: "string option")

datatype card_link = Card_link (title: "string option") (href: "string option") (img: "img_tag option")

type_synonym article = "card_link option"

record response =
  anchors :: "(string \<times> string) list"
  articles :: "article list"
  content :: string

record set_info =
  url :: string
  name :: string
  code :: string

record card =
  pokemon_name :: string
  card_title :: string
  card_number :: string
  set_name :: string
  set_code :: string
  image_url :: string
  card_page_url :: string
  local_path :: "string option"
  filename :: "string option"

record metadata =
  json_total_cards :: nat
  json_total_failed :: nat
  json_cards :: "card list"
  json_failed_downloads :: "card list"

text \<open>
  Exceptions are values. \<open>KeyboardInterrupt\<close> is the only one that is not an
  \<open>Exception\<close>; \<open>RequestException\<close> is what a transport error or an error status
  raises.
\<close>

datatype exc = RequestException | OSError | OtherError | KeyboardInterrupt

datatype dur = Seconds nat | Delay_times nat | Tenth

datatype event =
  Get string | Sleep dur | Write_image string | Write_metadata string
  | Acquire | Release | Append_downloaded | Append_failed

text \<open>
  The state: the two accumulators, the expected total, the files under the download
  directory (the images by name, the three metadata files), the number of blocking
  operations made so far, and the trace of what was done.
\<close>

record state =
  downloaded_cards :: "card list"
  failed_downloads :: "card list"
  total_cards_expected :: nat
  images :: "(string \<times> string) list"
  cards_metadata :: "metadata option"
  pokemon_classes :: "string option"
  download_summary :: "string option"
  clock :: nat
  events :: "event list"

text \<open>
  The world outside: what the \<open>n\<close>-th blocking operation raises, if anything, and what
  the site answers to a request made as the \<open>n\<close>-th operation.
\<close>

record env =
  fault :: "nat \<Rightarrow> exc option"
  serve :: "nat \<Rightarrow> string \<Rightarrow> response"

type_synonym 'a action = "state \<Rightarrow> (exc + 'a) \<times> state"

definition and_then :: "'a action \<Rightarrow> ('a \<Rightarrow> 'b action) \<Rightarrow> 'b action" where
  "and_then m f s = (case m s of (Inl e, s') \<Rightarrow> (Inl e, s') | (Inr a, s') \<Rightarrow> f a s')"

definition tick :: "event \<Rightarrow> state \<Rightarrow> state" where
  "tick ev s = s\<lparr>clock := Suc (clock s), events := events s @ [ev]\<rparr>"

definition trace :: "event \<Rightarrow> state \<Rightarrow> state" where
  "trace ev s = s\<lparr>events := events s @ [ev]\<rparr>"

text \<open>\<open>session.get(url, timeout=30)\<close> followed by \<open>raise_for_status()\<close>.\<close>

definition http_get :: "env \<Rightarrow> string \<Rightarrow> response action" where
  "http_get env u s =
     (case fault env (clock s) of
        Some e \<Rightarrow> (Inl e, tick (Get u) s)
      | None \<Rightarrow> (Inr (serve env (clock s) u), tick (Get u) s))"

text \<open>\<open>time.sleep\<close>: nothing but an interrupt ends it early.\<close>

definition sleep :: "env \<Rightarrow> dur \<Rightarrow> unit action" where
  "sleep env d s =
     (if fault env (clock s) = Some KeyboardInterrupt then (Inl KeyboardInterrupt, tick (Sleep d) s)
      else (Inr (), tick (Sleep d) s))"

section \<open>Fetching a page\<close>

text \<open>
  \<open>get_page_content\<close>: the loop \<open>for attempt in range(retries)\<close> is the recursion over
  the list \<open>[0..<retries]\<close>. Only a \<open>RequestException\<close> is caught; the sleep is inside
  the handler, so an interrupt there leaves the function. When the range is exhausted
  without a return (\<open>retries = 0\<close>) the function returns \<open>None\<close>.
\<close>

fun attempts :: "env \<Rightarrow> string \<Rightarrow> nat \<Rightarrow> nat list \<Rightarrow> response option action" where
  "attempts env u retries [] s = (Inr None, s)"
| "attempts env u retries (attempt # rest) s =
     (case http_get env u s of
        (Inr r, s1) \<Rightarrow> (Inr (Some r), s1)
      | (Inl e, s1) \<Rightarrow>
          if e = RequestException then
            if int attempt < int retries - 1 then
              (case sleep env (Seconds (2 ^ attempt)) s1 of
                 (Inl e', s2) \<Rightarrow> (Inl e', s2)
               | (Inr _, s2) \<Rightarrow> attempts env u retries rest s2)
            else (Inr None, s1)
          else (Inl e, s1))"

definition get_page_content :: "env \<Rightarrow> string \<Rightarrow> nat \<Rightarrow> response option action" where
  "get_page_content env u retries = attempts env u retries [0..<retries]"

section \<open>The catalogue of sets\<close>

definition base_url :: string where
  "base_url = ''https://pkmncards.com/sets/''"

definition set_url_prefix :: string where
  "set_url_prefix = ''https://pkmncards.com/set/''"

text \<open>
  The first loop of \<open>extract_set_links\<close>, over the anchors in document order: an anchor
  is kept when its \<open>href\<close> starts with the set prefix and its stripped text is not empty
  and holds both parentheses.
\<close>

fun collect_set_links :: "(string \<times> string) list \<Rightarrow> set_info list" where
  "collect_set_links [] = []"
| "collect_set_links ((target, txt) # rest) =
     (let text = strip txt in
      if target \<noteq> [] \<and> prefix set_url_prefix target
         \<and> text \<noteq> [] \<and> CHR ''('' \<in> set text \<and> CHR '')'' \<in> set text
      then \<lparr>url = target, name = text, code = extract_set_code text\<rparr> # collect_set_links rest
      else collect_set_links rest)"

text \<open>The second loop: a link is kept unless its URL was seen before.\<close>

fun unique_links :: "string set \<Rightarrow> set_info list \<Rightarrow> set_info list" where
  "unique_links seen_urls [] = []"
| "unique_links seen_urls (link # rest) =
     (if url link \<notin> seen_urls then link # unique_links (insert (url link) seen_urls) rest
      else unique_links seen_urls rest)"

definition extract_set_links :: "env \<Rightarrow> set_info list action" where
  "extract_set_links env s =
     (case get_page_content env base_url 3 s of
        (Inl e, s1) \<Rightarrow> (Inl e, s1)
      | (Inr None, s1) \<Rightarrow> (Inr [], s1)
      | (Inr (Some response), s1) \<Rightarrow>
          (Inr (unique_links {} (collect_set_links (anchors response))), s1))"

section \<open>The cards of a set\<close>

text \<open>\<open>tag.get(attribute, '')\<close>\<close>

definition get_attr :: "string option \<Rightarrow> string" where
  "get_attr a = (case a of None \<Rightarrow> [] | Some v \<Rightarrow> v)"

text \<open>The loop of \<open>count_cards_in_set\<close> over the articles, with its counter.\<close>

fun count_articles :: "nat \<Rightarrow> article list \<Rightarrow> nat" where
  "count_articles valid_cards [] = valid_cards"
| "count_articles valid_cards (article # rest) =
     (case article of
        None \<Rightarrow> count_articles valid_cards rest
      | Some card_link \<Rightarrow>
          (case img card_link of
             None \<Rightarrow> count_articles valid_cards rest
           | Some img_tag \<Rightarrow>
               if get_attr (src img_tag) = [] then count_articles valid_cards rest
               else count_articles (valid_cards + 1) rest))"

definition count_cards_in_set :: "env \<Rightarrow> string \<Rightarrow> set_info \<Rightarrow> nat action" where
  "count_cards_in_set env set_url info s =
     (case get_page_content env set_url 3 s of
        (Inl e, s1) \<Rightarrow> (Inl e, s1)
      | (Inr None, s1) \<Rightarrow> (Inr 0, s1)
      | (Inr (Some response), s1) \<Rightarrow> (Inr (count_articles 0 (articles response)), s1))"

text \<open>The loop of \<open>get_card_images_from_set\<close>, with the list it appends to.\<close>

fun card_articles :: "set_info \<Rightarrow> card list \<Rightarrow> article list \<Rightarrow> card list" where
  "card_articles info cards [] = cards"
| "card_articles info cards (article # rest) =
     (case article of
        None \<Rightarrow> card_articles info cards rest
      | Some card_link \<Rightarrow>
          (case img card_link of
             None \<Rightarrow> card_articles info cards rest
           | Some img_tag \<Rightarrow>
               if get_attr (src img_tag) = [] then card_articles info cards rest
               else card_articles info
                 (cards @
                  [\<lparr>pokemon_name = fst (parse_card_title (get_attr (title card_link))),
                    card_title = get_attr (title card_link),
                    card_number = snd (parse_card_title (get_attr (title card_link))),
                    set_name = name info,
                    set_code = code info,
                    image_url = get_attr (src img_tag),
                    card_page_url = get_attr (href card_link),
                    local_path = None,
                    filename = None\<rparr>])
                 rest))"

definition get_card_images_from_set :: "env \<Rightarrow> string \<Rightarrow> set_info \<Rightarrow> card list action" where
  "get_card_images_from_set env set_url info s =
     (case get_page_content env set_url 3 s of
        (Inl e, s1) \<Rightarrow> (Inl e, s1)
      | (Inr None, s1) \<Rightarrow> (Inr [], s1)
      | (Inr (Some response), s1) \<Rightarrow> (Inr (card_articles info [] (articles response)), s1))"

section \<open>Downloading one image\<close>

text \<open>
  The file name \<open>{safe_pokemon_name}_{safe_set_code}_{card_number}.jpg\<close>.
\<close>

definition safe_pokemon_name :: "card \<Rightarrow> string" where
  "safe_pokemon_name card_info =
     map (\<lambda>c. if c = CHR '' '' then CHR ''_'' else c) (clean_name (pokemon_name card_info))"

definition safe_set_code :: "card \<Rightarrow> string" where
  "safe_set_code card_info = filter (\<lambda>c. is_word c \<or> c = CHR ''-'') (set_code card_info)"

definition image_filename :: "card \<Rightarrow> string" where
  "image_filename card_info =
     safe_pokemon_name card_info @ ''_'' @ safe_set_code card_info @ ''_''
       @ card_number card_info @ ''.jpg''"

text \<open>
  \<open>PurePath.suffix\<close> and \<open>PurePath.stem\<close> of a file name: with \<open>i\<close> the index of the
  last dot, the suffix is \<open>name[i:]\<close> when \<open>0 < i < len(name) - 1\<close> and empty
  otherwise, and the stem is the rest.
\<close>

definition path_suffix :: "string \<Rightarrow> string" where
  "path_suffix file_name =
     (let ext = rev (takeWhile (\<lambda>c. c \<noteq> CHR ''.'') (rev file_name)) in
      if CHR ''.'' \<in> set file_name \<and> length ext + 1 < length file_name \<and> ext \<noteq> []
      then CHR ''.'' # ext else [])"

definition path_stem :: "string \<Rightarrow> string" where
  "path_stem file_name = take (length file_name - length (path_suffix file_name)) file_name"

text \<open>\<open>f"{name_part}_{counter}{extension}"\<close> in the directory of the original path.\<close>

definition numbered :: "string \<Rightarrow> nat \<Rightarrow> string" where
  "numbered original counter =
     path_stem original @ ''_'' @ str counter @ path_suffix original"

text \<open>
  The loop \<open>while filepath.exists()\<close>. The images directory holds finitely many files,
  listed by name; a path is a file name in that directory, which is what a name without
  a slash gives (the card number of a scanned card is made of word characters).
\<close>

function unique_path :: "string list \<Rightarrow> string \<Rightarrow> string \<Rightarrow> nat \<Rightarrow> string" where
  "unique_path existing original filepath counter =
     (if filepath \<in> set existing
      then unique_path existing original (numbered original counter) (counter + 1)
      else filepath)"
  by pat_completeness auto

lemma digit_inj: "a < 10 \<Longrightarrow> b < 10 \<Longrightarrow> digit a = digit b \<Longrightarrow> a = b"
proof -
  assume a: "a < 10" and b: "b < 10" and e: "digit a = digit b"
  have "(of_char (digit a) :: nat) = of_char (digit b)" using e by simp
  then have "(48 + a) mod 256 = (48 + b) mod 256" by (simp add: digit_def)
  then show "a = b" using a b by simp
qed

lemma str_not_Nil: "str n \<noteq> []"
  by (subst str.simps) simp

lemma str_inj: "str m = str n \<Longrightarrow> m = n"
proof (induction m arbitrary: n rule: str.induct)
  case (1 m)
  show ?case
  proof (cases "m < 10")
    case True
    then have m: "str m = [digit m]" by (subst str.simps) simp
    show ?thesis
    proof (cases "n < 10")
      case True
      then have "str n = [digit n]" by (subst str.simps) simp
      then show ?thesis using m "1.prems" True \<open>m < 10\<close> digit_inj by simp
    next
      case False
      then have "str n = str (n div 10) @ [digit (n mod 10)]" by (subst str.simps) simp
      then show ?thesis using m "1.prems" str_not_Nil [of "n div 10"] by simp
    qed
  next
    case False
    then have m: "str m = str (m div 10) @ [digit (m mod 10)]" by (subst str.simps) simp
    show ?thesis
    proof (cases "n < 10")
      case True
      then have "str n = [digit n]" by (subst str.simps) simp
      then show ?thesis using m "1.prems" str_not_Nil [of "m div 10"] by simp
    next
      case n: False
      then have "str n = str (n div 10) @ [digit (n mod 10)]" by (subst str.simps) simp
      then have a: "str (m div 10) = str (n div 10)" and b: "digit (m mod 10) = digit (n mod 10)"
        using m "1.prems" by simp_all
      have "m div 10 = n div 10" using "1.IH" [OF False a] .
      moreover have "m mod 10 = n mod 10" using digit_inj [OF _ _ b] by simp
      ultimately show ?thesis by (metis div_mult_mod_eq)
    qed
  qed
qed

lemma numbered_inj: "numbered original a = numbered original b \<Longrightarrow> a = b"
proof -
  assume "numbered original a = numbered original b"
  then have "str a @ path_suffix original = str b @ path_suffix original"
    by (simp add: numbered_def)
  then show "a = b" using str_inj by simp
qed

lemma finite_numbered: "finite {k. numbered original k \<in> set existing}"
proof -
  have "inj (numbered original)" using numbered_inj by (auto intro: injI)
  then have "finite (numbered original -` set existing)" by (simp add: finite_vimageI)
  then show ?thesis by (simp add: vimage_def)
qed

lemma numbered_from_less:
  assumes "numbered original counter \<in> set existing"
  shows "card {k. Suc counter \<le> k \<and> numbered original k \<in> set existing}
    < card {k. counter \<le> k \<and> numbered original k \<in> set existing}"
proof (rule psubset_card_mono)
  show "finite {k. counter \<le> k \<and> numbered original k \<in> set existing}"
    using finite_numbered [of original existing] by (rule rev_finite_subset) auto
  show "{k. Suc counter \<le> k \<and> numbered original k \<in> set existing}
    \<subset> {k. counter \<le> k \<and> numbered original k \<in> set existing}"
  proof
    show "{k. Suc counter \<le> k \<and> numbered original k \<in> set existing}
      \<subseteq> {k. counter \<le> k \<and> numbered original k \<in> set existing}"
      by auto
    have "counter \<in> {k. counter \<le> k \<and> numbered original k \<in> set existing}"
      using assms by simp
    moreover have "counter \<notin> {k. Suc counter \<le> k \<and> numbered original k \<in> set existing}"
      by simp
    ultimately show "{k. Suc counter \<le> k \<and> numbered original k \<in> set existing}
      \<noteq> {k. counter \<le> k \<and> numbered original k \<in> set existing}"
      by blast
  qed
qed

lemma numbered_from_le:
  "card {k. Suc counter \<le> k \<and> numbered original k \<in> set existing}
    \<le> card {k. counter \<le> k \<and> numbered original k \<in> set existing}"
proof (rule card_mono)
  show "finite {k. counter \<le> k \<and> numbered original k \<in> set existing}"
    using finite_numbered [of original existing] by (rule rev_finite_subset) auto
  show "{k. Suc counter \<le> k \<and> numbered original k \<in> set existing}
    \<subseteq> {k. counter \<le> k \<and> numbered original k \<in> set existing}"
    by auto
qed

termination unique_path
proof (relation "measure (\<lambda>(existing, original, filepath, counter).
    2 * card {k. counter \<le> k \<and> numbered original k \<in> set existing}
    + (if filepath \<in> set existing then 1 else 0))")
  show "wf (measure (\<lambda>(existing, original, filepath, counter).
    2 * card {k. counter \<le> k \<and> numbered original k \<in> set existing}
    + (if filepath \<in> set existing then 1 else 0)))"
    by simp
next
  fix existing :: "string list" and original filepath :: string and counter :: nat
  assume "filepath \<in> set existing"
  then show "((existing, original, numbered original counter, counter + 1),
      existing, original, filepath, counter)
    \<in> measure (\<lambda>(existing, original, filepath, counter).
        2 * card {k. counter \<le> k \<and> numbered original k \<in> set existing}
        + (if filepath \<in> set existing then 1 else 0))"
    using numbered_from_less [of original counter existing]
      numbered_from_le [of counter original existing]
    by auto
qed

declare unique_path.simps [simp del]

text \<open>Writing the bytes: \<open>open(filepath, 'wb')\<close> and \<open>f.write\<close>, one blocking operation.\<close>

definition write_image :: "env \<Rightarrow> string \<Rightarrow> string \<Rightarrow> unit action" where
  "write_image env filepath data s =
     (case fault env (clock s) of
        Some e \<Rightarrow> (Inl e, tick (Write_image filepath) s)
      | None \<Rightarrow>
          (Inr (), (tick (Write_image filepath) s)\<lparr>images := AList.update filepath data (images s)\<rparr>))"

definition append_downloaded :: "card \<Rightarrow> state \<Rightarrow> state" where
  "append_downloaded card_info s =
     (trace Append_downloaded s)\<lparr>downloaded_cards := downloaded_cards s @ [card_info]\<rparr>"

definition append_failed :: "card \<Rightarrow> state \<Rightarrow> state" where
  "append_failed card_info s =
     (trace Append_failed s)\<lparr>failed_downloads := failed_downloads s @ [card_info]\<rparr>"

text \<open>\<open>with self.lock:\<close>\<close>

definition with_lock :: "(state \<Rightarrow> state) \<Rightarrow> state \<Rightarrow> state" where
  "with_lock body s = trace Release (body (trace Acquire s))"

text \<open>
  The body of the \<open>try\<close> in \<open>download_image\<close>. Updates of the progress bar and log
  lines are left out.
\<close>

definition try_download :: "env \<Rightarrow> card \<Rightarrow> bool action" where
  "try_download env card_info s =
     (case get_page_content env (image_url card_info) 3 s of
        (Inl e, s1) \<Rightarrow> (Inl e, s1)
      | (Inr None, s1) \<Rightarrow> (Inr False, append_failed card_info s1)
      | (Inr (Some response), s1) \<Rightarrow>
          (let filepath = unique_path (map fst (images s1)) (image_filename card_info)
                 (image_filename card_info) 1
           in case write_image env filepath (content response) s1 of
                (Inl e, s2) \<Rightarrow> (Inl e, s2)
              | (Inr _, s2) \<Rightarrow>
                  (Inr True,
                   with_lock
                     (append_downloaded
                        (card_info\<lparr>local_path := Some (''images/'' @ filepath),
                                   filename := Some filepath\<rparr>))
                     s2)))"

text \<open>\<open>download_image\<close>: \<open>except Exception\<close> catches everything but the interrupt.\<close>

definition download_image :: "env \<Rightarrow> card \<Rightarrow> bool action" where
  "download_image env card_info s =
     (case try_download env card_info s of
        (Inl e, s1) \<Rightarrow>
          if e = KeyboardInterrupt then (Inl e, s1)
          else (Inr False, with_lock (append_failed card_info) s1)
      | (Inr success, s1) \<Rightarrow> (Inr success, s1))"

section \<open>The metadata files\<close>

definition snapshot :: "state \<Rightarrow> metadata" where
  "snapshot s =
     \<lparr>json_total_cards = length (downloaded_cards s),
      json_total_failed = length (failed_downloads s),
      json_cards = downloaded_cards s,
      json_failed_downloads = failed_downloads s\<rparr>"

text \<open>\<open>list(set(...))\<close> followed by \<open>sort()\<close>: the distinct names in ascending order.\<close>

definition pokemon_names :: "card list \<Rightarrow> string list" where
  "pokemon_names downloaded = sort (remdups (map pokemon_name downloaded))"

definition classes_text :: "card list \<Rightarrow> string" where
  "classes_text downloaded =
     concat (map (\<lambda>(i, n). str i @ '': '' @ n @ [newline])
       (enumerate 0 (pokemon_names downloaded)))"

text \<open>
  The dictionary \<open>sets\<close> keeps its keys in insertion order: an association list, updated
  in place or extended at the end.
\<close>

fun group_by_set :: "(string \<times> nat) list \<Rightarrow> card list \<Rightarrow> (string \<times> nat) list" where
  "group_by_set sets [] = sets"
| "group_by_set sets (card_info # rest) =
     (let sets1 = (if map_of sets (set_name card_info) = None
                   then AList.update (set_name card_info) 0 sets else sets)
      in case map_of sets1 (set_name card_info) of
           Some n \<Rightarrow> group_by_set (AList.update (set_name card_info) (n + 1) sets1) rest
         | None \<Rightarrow> group_by_set sets1 rest)"

definition summary_text :: "card list \<Rightarrow> card list \<Rightarrow> string" where
  "summary_text downloaded failed =
     ''Pokemon Card Download Summary'' @ [newline]
     @ ''============================'' @ [newline, newline]
     @ ''Total cards downloaded: '' @ str (length downloaded) @ [newline]
     @ ''Total failed downloads: '' @ str (length failed) @ [newline]
     @ ''Unique Pokemon: '' @ str (length (pokemon_names downloaded)) @ [newline, newline]
     @ ''Cards by Set:'' @ [newline]
     @ concat (map (\<lambda>(n, c). ''  '' @ n @ '': '' @ str c @ '' cards'' @ [newline])
         (sort (group_by_set [] downloaded)))"

text \<open>Writing one metadata file: one blocking operation.\<close>

definition write_file :: "env \<Rightarrow> string \<Rightarrow> (state \<Rightarrow> state) \<Rightarrow> unit action" where
  "write_file env file_name store s =
     (case fault env (clock s) of
        Some e \<Rightarrow> (Inl e, tick (Write_metadata file_name) s)
      | None \<Rightarrow> (Inr (), store (tick (Write_metadata file_name) s)))"

definition save_metadata :: "env \<Rightarrow> unit action" where
  "save_metadata env s =
     and_then (write_file env ''cards_metadata.json'' (\<lambda>t. t\<lparr>cards_metadata := Some (snapshot s)\<rparr>))
       (\<lambda>_. and_then
          (write_file env ''pokemon_classes.txt''
             (\<lambda>t. t\<lparr>pokemon_classes := Some (classes_text (downloaded_cards s))\<rparr>))
          (\<lambda>_. write_file env ''download_summary.txt''
             (\<lambda>t. t\<lparr>download_summary :=
                Some (summary_text (downloaded_cards s) (failed_downloads s))\<rparr>)))
       s"

section \<open>The run\<close>

text \<open>
  The loop of \<open>count_total_cards\<close>: an \<open>Exception\<close> raised while a set is counted
  records the count 0 for it and the loop goes on.
\<close>

fun count_sets ::
  "env \<Rightarrow> nat \<Rightarrow> (set_info \<times> nat) list \<Rightarrow> set_info list \<Rightarrow> (nat \<times> (set_info \<times> nat) list) action"
where
  "count_sets env total_count set_counts [] s = (Inr (total_count, set_counts), s)"
| "count_sets env total_count set_counts (info # rest) s =
     (case count_cards_in_set env (url info) info s of
        (Inl e, s1) \<Rightarrow>
          if e = KeyboardInterrupt then (Inl e, s1)
          else count_sets env total_count (set_counts @ [(info, 0)]) rest s1
      | (Inr count, s1) \<Rightarrow>
          (case sleep env Tenth s1 of
             (Inl e, s2) \<Rightarrow>
               if e = KeyboardInterrupt then (Inl e, s2)
               else count_sets env (total_count + count)
                      (set_counts @ [(info, count), (info, 0)]) rest s2
           | (Inr _, s2) \<Rightarrow>
               count_sets env (total_count + count) (set_counts @ [(info, count)]) rest s2))"

definition count_total_cards :: "env \<Rightarrow> (nat \<times> (set_info \<times> nat) list) action" where
  "count_total_cards env s =
     (case extract_set_links env s of
        (Inl e, s1) \<Rightarrow> (Inl e, s1)
      | (Inr set_links, s1) \<Rightarrow>
          if set_links = [] then (Inr (0, []), s1)
          else count_sets env 0 [] set_links s1)"

text \<open>
  The sequential download of the cards of one set. The branch taken with
  \<open>parallel=True\<close> hands the same \<open>download_image\<close> calls to a thread pool; it is not
  part of this model.
\<close>

fun download_cards :: "env \<Rightarrow> card list \<Rightarrow> unit action" where
  "download_cards env [] s = (Inr (), s)"
| "download_cards env (card_info # rest) s =
     (case download_image env card_info s of
        (Inl e, s1) \<Rightarrow> (Inl e, s1)
      | (Inr _, s1) \<Rightarrow>
          (case sleep env (Delay_times 1) s1 of
             (Inl e, s2) \<Rightarrow> (Inl e, s2)
           | (Inr _, s2) \<Rightarrow> download_cards env rest s2))"

text \<open>
  The body of the loop over the sets, inside the \<open>try\<close> of \<open>scrape_all_cards\<close>:
  a set without cards is passed over (\<open>continue\<close>); otherwise the cards are downloaded,
  the metadata saved, and the loop pauses.
\<close>

definition download_set :: "env \<Rightarrow> set_info \<Rightarrow> unit action" where
  "download_set env info s =
     (case get_card_images_from_set env (url info) info s of
        (Inl e, s1) \<Rightarrow> (Inl e, s1)
      | (Inr cards, s1) \<Rightarrow>
          if cards = [] then (Inr (), s1)
          else
            (case download_cards env cards s1 of
               (Inl e, s2) \<Rightarrow> (Inl e, s2)
             | (Inr _, s2) \<Rightarrow>
                 (case save_metadata env s2 of
                    (Inl e, s3) \<Rightarrow> (Inl e, s3)
                  | (Inr _, s3) \<Rightarrow> sleep env (Delay_times 2) s3)))"

fun download_sets :: "env \<Rightarrow> (set_info \<times> nat) list \<Rightarrow> unit action" where
  "download_sets env [] s = (Inr (), s)"
| "download_sets env ((info, expected_count) # rest) s =
     (case download_set env info s of
        (Inl e, s1) \<Rightarrow> (Inl e, s1)
      | (Inr _, s1) \<Rightarrow> download_sets env rest s1)"

text \<open>
  How \<open>scrape_all_cards\<close> ended: at the \<open>return\<close> after "No cards found to download!",
  at the one after "No set links found!", or after the final save.
\<close>

datatype run_end = No_cards | No_set_links | Completed

definition download_phase :: "env \<Rightarrow> (set_info \<times> nat) list \<Rightarrow> run_end action" where
  "download_phase env set_counts s =
     (case download_sets env set_counts s of
        (Inl e, s1) \<Rightarrow> (Inl e, s1)
      | (Inr _, s1) \<Rightarrow>
          (case save_metadata env s1 of
             (Inl e, s2) \<Rightarrow> (Inl e, s2)
           | (Inr _, s2) \<Rightarrow> (Inr Completed, s2)))"

definition scrape_all_cards :: "env \<Rightarrow> bool \<Rightarrow> run_end action" where
  "scrape_all_cards env skip_count s =
     (if \<not> skip_count then
        (case count_total_cards env s of
           (Inl e, s1) \<Rightarrow> (Inl e, s1)
         | (Inr (total_count, set_counts), s1) \<Rightarrow>
             if total_count = 0 then (Inr No_cards, s1\<lparr>total_cards_expected := total_count\<rparr>)
             else download_phase env set_counts (s1\<lparr>total_cards_expected := total_count\<rparr>))
      else
        (case extract_set_links env s of
           (Inl e, s1) \<Rightarrow> (Inl e, s1)
         | (Inr set_links, s1) \<Rightarrow>
             if set_links = [] then (Inr No_set_links, s1)
             else download_phase env (map (\<lambda>info. (info, 0)) set_links)
                    (s1\<lparr>total_cards_expected := 0\<rparr>)))"

text \<open>
  \<open>PokemonCardScraper()\<close> starts with empty accumulators over whatever the download
  directory holds; \<open>main\<close> saves the metadata in both of its handlers.
\<close>

definition new_scraper :: "state \<Rightarrow> state" where
  "new_scraper disk = disk\<lparr>downloaded_cards := [], failed_downloads := [], total_cards_expected := 0\<rparr>"

definition main :: "env \<Rightarrow> bool \<Rightarrow> unit action" where
  "main env skip_count disk =
     (case scrape_all_cards env skip_count (new_scraper disk) of
        (Inl e, s1) \<Rightarrow> save_metadata env s1
      | (Inr _, s1) \<Rightarrow> (Inr (), s1))"

section \<open>Notions used in the statements\<close>

fun is_get :: "event \<Rightarrow> bool" where
  "is_get (Get u) = True"
| "is_get _ = False"

text \<open>The requests made between two states of a run.\<close>

definition requests_made :: "state \<Rightarrow> state \<Rightarrow> nat" where
  "requests_made s s' = length (filter is_get (drop (length (events s)) (events s')))"

text \<open>
  The accumulators and the files are the same in two states (the clock and the trace may
  differ); and an exception \<open>e\<close> was raised by a blocking operation between two states.
\<close>

definition same_store :: "state \<Rightarrow> state \<Rightarrow> bool" where
  "same_store s s' =
     (downloaded_cards s' = downloaded_cards s \<and> failed_downloads s' = failed_downloads s
      \<and> images s' = images s \<and> cards_metadata s' = cards_metadata s
      \<and> pokemon_classes s' = pokemon_classes s \<and> download_summary s' = download_summary s)"

definition raised :: "env \<Rightarrow> state \<Rightarrow> state \<Rightarrow> exc \<Rightarrow> bool" where
  "raised env s s' e = (\<exists>n. clock s \<le> n \<and> n < clock s' \<and> fault env n = Some e)"

text \<open>
  Every downloaded card has its own local path, and the file it names exists in the
  images directory.
\<close>

definition paths_unique :: "state \<Rightarrow> bool" where
  "paths_unique s =
     (distinct (map local_path (downloaded_cards s))
      \<and> (\<forall>c\<in>set (downloaded_cards s).
           \<exists>p. local_path c = Some (''images/'' @ p) \<and> p \<in> fst ` set (images s)))"

text \<open>
  The lock discipline of a trace: every append to an accumulator happens between an
  acquisition of the lock and its release.
\<close>

fun lock_discipline :: "bool \<Rightarrow> event list \<Rightarrow> bool" where
  "lock_discipline held [] = True"
| "lock_discipline held (Acquire # es) = lock_discipline True es"
| "lock_discipline held (Release # es) = lock_discipline False es"
| "lock_discipline held (Append_downloaded # es) = (held \<and> lock_discipline held es)"
| "lock_discipline held (Append_failed # es) = (held \<and> lock_discipline held es)"
| "lock_discipline held (e # es) = lock_discipline held es"

text \<open>The metadata files on disk are those of the accumulators as they are now.\<close>

definition flushed :: "state \<Rightarrow> bool" where
  "flushed s =
     (cards_metadata s = Some (snapshot s)
      \<and> pokemon_classes s = Some (classes_text (downloaded_cards s))
      \<and> download_summary s = Some (summary_text (downloaded_cards s) (failed_downloads s)))"

section \<open>Example worlds\<close>

definition empty_disk :: state where
  "empty_disk =
     \<lparr>downloaded_cards = [], failed_downloads = [], total_cards_expected = 0, images = [],
      cards_metadata = None, pokemon_classes = None, download_summary = None,
      clock = 0, events = []\<rparr>"

definition blank_page :: response where
  "blank_page = \<lparr>anchors = [], articles = [], content = []\<rparr>"

text \<open>A site whose first two answers fail, and one whose first three answers fail.\<close>

definition flaky_env :: env where
  "flaky_env =
     \<lparr>fault = (\<lambda>n. if n = 0 \<or> n = 2 then Some RequestException else None),
      serve = (\<lambda>n u. blank_page)\<rparr>"

definition failing_env :: env where
  "failing_env =
     \<lparr>fault = (\<lambda>n. if n = 0 \<or> n = 2 \<or> n = 4 then Some RequestException else None),
      serve = (\<lambda>n u. blank_page)\<rparr>"

text \<open>
  A number marker of a title: a \<open>#\<close> at index \<open>i\<close> that a word character follows.
\<close>

definition number_marker :: "string \<Rightarrow> nat \<Rightarrow> bool" where
  "number_marker t i = (Suc i < length t \<and> t ! i = CHR ''#'' \<and> is_word (t ! Suc i))"

text \<open>Two titles: one with a separator and a number, one with neither.\<close>

definition marked_title :: string where
  "marked_title = ''Abra '' @ [middle_dot] @ '' Base #43''"

definition plain_title :: string where
  "plain_title = ''Pikachu''"

text \<open>
  The name \<open>n\<close> ends with the parenthesised token \<open>b\<close>; and \<open>c\<close> is the code that the
  trailing parentheses of \<open>n\<close> give: the longest such token, or \<open>"UNKNOWN"\<close> when
  there is none.
\<close>

definition paren_token :: "string \<Rightarrow> string \<Rightarrow> bool" where
  "paren_token n b = (b \<noteq> [] \<and> CHR '')'' \<notin> set b \<and> (\<exists>pre. n = pre @ CHR ''('' # b @ '')''))"

definition trailing_code :: "string \<Rightarrow> string \<Rightarrow> bool" where
  "trailing_code n c =
     (if \<exists>b. paren_token n b
      then paren_token n c \<and> (\<forall>b. paren_token n b \<longrightarrow> length b \<le> length c)
      else c = ''UNKNOWN'')"

text \<open>An article is valid when it has the link, the image and a source that is not empty.\<close>

definition valid_article :: "article \<Rightarrow> bool" where
  "valid_article a =
     (case a of
        None \<Rightarrow> False
      | Some l \<Rightarrow> (case img l of None \<Rightarrow> False | Some i \<Rightarrow> get_attr (src i) \<noteq> []))"

text \<open>
  A site that always answers: a root page with the anchors of two sets (one of them
  twice) and a foreign link, and set pages with three well-formed articles and one
  without an image source; the three cards of a page have the same title.
\<close>

definition card_article :: "string \<Rightarrow> string \<Rightarrow> article" where
  "card_article t u =
     Some (Card_link (Some t) (Some ''https://pkmncards.com/card/'') (Some (Img (Some u))))"

definition root_page :: response where
  "root_page =
     \<lparr>anchors =
        [(''https://pkmncards.com/set/base-set/'', '' Base Set (BS) ''),
         (''https://pkmncards.com/about/'', ''About (us)''),
         (''https://pkmncards.com/set/jungle/'', ''Jungle (JU)''),
         (''https://pkmncards.com/set/base-set/'', ''Base Set again (BS2)'')],
      articles = [], content = []\<rparr>"

definition set_page :: response where
  "set_page =
     \<lparr>anchors = [],
      articles =
        [card_article (''Abra '' @ [middle_dot] @ '' Base #43'') ''abra.jpg'',
         card_article (''Abra '' @ [middle_dot] @ '' Base #43'') ''abra2.jpg'',
         Some (Card_link (Some ''Onix'') None (Some (Img None))),
         card_article (''Abra '' @ [middle_dot] @ '' Base #43'') ''abra3.jpg''],
      content = ''JFIF''\<rparr>"

definition calm_env :: env where
  "calm_env =
     \<lparr>fault = (\<lambda>n. None),
      serve = (\<lambda>n u. if u = base_url then root_page else set_page)\<rparr>"

definition two_sets :: "set_info list" where
  "two_sets =
     [\<lparr>url = ''https://pkmncards.com/set/base-set/'', name = ''Base Set (BS)'', code = ''BS''\<rparr>,
      \<lparr>url = ''https://pkmncards.com/set/jungle/'', name = ''Jungle (JU)'', code = ''JU''\<rparr>]"

text \<open>The number of downloaded cards of a set, and the head of the summary file.\<close>

definition cards_in_set :: "card list \<Rightarrow> string \<Rightarrow> nat" where
  "cards_in_set downloaded n = length (filter (\<lambda>c. set_name c = n) downloaded)"

definition summary_head :: "card list \<Rightarrow> card list \<Rightarrow> string" where
  "summary_head downloaded failed =
     ''Pokemon Card Download Summary'' @ [newline]
     @ ''============================'' @ [newline, newline]
     @ ''Total cards downloaded: '' @ str (length downloaded) @ [newline]
     @ ''Total failed downloads: '' @ str (length failed) @ [newline]
     @ ''Unique Pokemon: '' @ str (length (pokemon_names downloaded)) @ [newline, newline]
     @ ''Cards by Set:'' @ [newline]"

text \<open>A scraper that has downloaded three cards of two sets.\<close>

definition example_card :: "string \<Rightarrow> string \<Rightarrow> string \<Rightarrow> card" where
  "example_card n s c =
     \<lparr>pokemon_name = n, card_title = n, card_number = ''1'', set_name = s, set_code = c,
      image_url = ''https://pkmncards.com/'' @ n @ ''.jpg'', card_page_url = [],
      local_path = None, filename = None\<rparr>"

definition shelf :: state where
  "shelf =
     empty_disk\<lparr>downloaded_cards :=
       [example_card ''Pikachu'' ''Jungle (JU)'' ''JU'',
        example_card ''Abra'' ''Base Set (BS)'' ''BS'',
        example_card ''Abra'' ''Jungle (JU)'' ''JU'']\<rparr>"

text \<open>
  A card to download; a world where the first operation is interrupted, and one where
  the disk refuses the first write.
\<close>

definition abra :: card where
  "abra = example_card ''Abra'' ''Base Set (BS)'' ''BS''"


definition full_disk_env :: env where
  "full_disk_env =
     \<lparr>fault = (\<lambda>n. if n = 1 then Some OSError else None),
      serve = (\<lambda>n u. if u = base_url then root_page else set_page)\<rparr>"

text \<open>A download directory that already holds two images of the card above.\<close>

definition crowded :: state where
  "crowded =
     empty_disk\<lparr>images := [(''Abra_BS_1.jpg'', ''JFIF''), (''Abra_BS_1_1.jpg'', ''JFIF'')]\<rparr>"

text \<open>
  A site whose sets have no cards; a site with one set of one card; and a disk that is
  full once the first image has been written.
\<close>

definition barren_env :: env where
  "barren_env =
     \<lparr>fault = (\<lambda>n. None),
      serve = (\<lambda>n u. if u = base_url then root_page else blank_page)\<rparr>"

definition small_root :: response where
  "small_root =
     \<lparr>anchors = [(''https://pkmncards.com/set/jungle/'', ''Jungle (JU)'')],
      articles = [], content = []\<rparr>"

definition small_page :: response where
  "small_page =
     \<lparr>anchors = [], articles = [card_article ''Pikachu #60'' ''pikachu.jpg''],
      content = ''JFIF''\<rparr>"

definition full_after_image_env :: env where
  "full_after_image_env =
     \<lparr>fault = (\<lambda>n. if 5 \<le> n then Some OSError else None),
      serve = (\<lambda>n u. if u = base_url then small_root else small_page)\<rparr>"

text \<open>
  The site with one set of one card, always answering; and a world whose first request
  raises an error that is not a \<open>RequestException\<close>.
\<close>

definition small_env :: env where
  "small_env =
     \<lparr>fault = (\<lambda>n. None),
      serve = (\<lambda>n u. if u = base_url then small_root else small_page)\<rparr>"

definition jammed_env :: env where
  "jammed_env =
     \<lparr>fault = (\<lambda>n. if n = 0 then Some OtherError else None),
      serve = (\<lambda>n u. if u = base_url then root_page else set_page)\<rparr>"

definition jungle :: set_info where
  "jungle = \<lparr>url = ''https://pkmncards.com/set/jungle/'', name = ''Jungle (JU)'', code = ''JU''\<rparr>"


section \<open>Retries of a page fetch\<close>

lemma http_get_events: "events (snd (http_get env u s)) = events s @ [Get u]"
  by (simp add: http_get_def tick_def split: option.splits)

lemma sleep_events: "events (snd (sleep env d s)) = events s @ [Sleep d]"
  by (simp add: sleep_def tick_def)

lemma attempts_requests:
  "\<exists>evs. events (snd (attempts env u retries xs s)) = events s @ evs
     \<and> length (filter is_get evs) \<le> length xs"
proof (induction xs arbitrary: s)
  case Nil
  then show ?case by simp
next
  case (Cons attempt rest)
  obtain r s1 where g: "http_get env u s = (r, s1)" by (cases "http_get env u s")
  have e1: "events s1 = events s @ [Get u]" using http_get_events [of env u s] g by simp
  show ?case
  proof (cases r)
    case (Inr resp)
    then show ?thesis using g e1 by simp
  next
    case (Inl e)
    show ?thesis
    proof (cases "e = RequestException \<and> int attempt < int retries - 1")
      case False
      then show ?thesis using g e1 Inl by auto
    next
      case True
      obtain r2 s2 where sl: "sleep env (Seconds (2 ^ attempt)) s1 = (r2, s2)"
        by (cases "sleep env (Seconds (2 ^ attempt)) s1")
      have e2: "events s2 = events s @ [Get u, Sleep (Seconds (2 ^ attempt))]"
        using sleep_events [of env "Seconds (2 ^ attempt)" s1] sl e1 by simp
      show ?thesis
      proof (cases r2)
        case (Inl e')
        then show ?thesis using g sl e2 True \<open>r = Inl e\<close> by simp
      next
        case (Inr x)
        obtain evs where "events (snd (attempts env u retries rest s2)) = events s2 @ evs"
          and "length (filter is_get evs) \<le> length rest"
          using Cons.IH [of s2] by blast
        then show ?thesis using g sl e2 True \<open>r = Inl e\<close> Inr by simp
      qed
    qed
  qed
qed

lemma requests_made_le:
  "requests_made s (snd (get_page_content env u retries s)) \<le> retries"
  using attempts_requests [of env u retries "[0..<retries]" s]
  by (auto simp: requests_made_def get_page_content_def)

lemma upt_0_3: "[0..<3] = [0, Suc 0, 2]"
  by (simp add: upt_rec numeral_3_eq_3 numeral_2_eq_2)

lemma third_attempt_succeeds:
  assumes "fault env (clock s) = Some RequestException"
    and "fault env (clock s + 1) \<noteq> Some KeyboardInterrupt"
    and "fault env (clock s + 2) = Some RequestException"
    and "fault env (clock s + 3) \<noteq> Some KeyboardInterrupt"
    and "fault env (clock s + 4) = None"
  shows "get_page_content env u 3 s =
    (Inr (Some (serve env (clock s + 4) u)),
     s\<lparr>clock := clock s + 5,
       events := events s @ [Get u, Sleep (Seconds 1), Get u, Sleep (Seconds 2), Get u]\<rparr>)"
  using assms
  by (simp add: get_page_content_def upt_0_3 http_get_def sleep_def tick_def eval_nat_numeral)

lemma three_attempts_fail:
  assumes "fault env (clock s) = Some RequestException"
    and "fault env (clock s + 1) \<noteq> Some KeyboardInterrupt"
    and "fault env (clock s + 2) = Some RequestException"
    and "fault env (clock s + 3) \<noteq> Some KeyboardInterrupt"
    and "fault env (clock s + 4) = Some RequestException"
  shows "get_page_content env u 3 s =
    (Inr None,
     s\<lparr>clock := clock s + 5,
       events := events s @ [Get u, Sleep (Seconds 1), Get u, Sleep (Seconds 2), Get u]\<rparr>)"
  using assms
  by (simp add: get_page_content_def upt_0_3 http_get_def sleep_def tick_def eval_nat_numeral)

text \<open>
  Claim C1. With the default of 3 retries, \<open>get_page_content\<close> makes at most 3 requests
  for any URL, in any world and from any state. When the first two requests raise a
  \<open>RequestException\<close> (the two backoff sleeps not being interrupted) and the third is
  answered, it returns that answer after exactly three requests, having slept 1 second
  after the first failure and 2 seconds after the second. When the third request fails
  as well, it returns \<open>None\<close> after the same three requests and two sleeps: a value, not
  an exception.
\<close>

theorem get_page_content_retries:
  "requests_made s (snd (get_page_content env u 3 s)) \<le> 3
   \<and> (fault env (clock s) = Some RequestException
        \<and> fault env (clock s + 1) \<noteq> Some KeyboardInterrupt
        \<and> fault env (clock s + 2) = Some RequestException
        \<and> fault env (clock s + 3) \<noteq> Some KeyboardInterrupt
        \<and> fault env (clock s + 4) = None
      \<longrightarrow> get_page_content env u 3 s =
            (Inr (Some (serve env (clock s + 4) u)),
             s\<lparr>clock := clock s + 5,
               events := events s @ [Get u, Sleep (Seconds 1), Get u, Sleep (Seconds 2), Get u]\<rparr>))
   \<and> (fault env (clock s) = Some RequestException
        \<and> fault env (clock s + 1) \<noteq> Some KeyboardInterrupt
        \<and> fault env (clock s + 2) = Some RequestException
        \<and> fault env (clock s + 3) \<noteq> Some KeyboardInterrupt
        \<and> fault env (clock s + 4) = Some RequestException
      \<longrightarrow> get_page_content env u 3 s =
            (Inr None,
             s\<lparr>clock := clock s + 5,
               events := events s @ [Get u, Sleep (Seconds 1), Get u, Sleep (Seconds 2), Get u]\<rparr>))"
  using requests_made_le [of s env u 3] third_attempt_succeeds [of env s u]
    three_attempts_fail [of env s u]
  by blast

theorem get_page_content_retries_witness:
  "get_page_content flaky_env ''u'' 3 empty_disk =
     (Inr (Some blank_page),
      empty_disk\<lparr>clock := 5,
        events := [Get ''u'', Sleep (Seconds 1), Get ''u'', Sleep (Seconds 2), Get ''u'']\<rparr>)
   \<and> get_page_content failing_env ''u'' 3 empty_disk =
     (Inr None,
      empty_disk\<lparr>clock := 5,
        events := [Get ''u'', Sleep (Seconds 1), Get ''u'', Sleep (Seconds 2), Get ''u'']\<rparr>)"
  using get_page_content_retries [of empty_disk flaky_env "''u''"]
    get_page_content_retries [of empty_disk failing_env "''u''"]
  by (simp add: flaky_env_def failing_env_def empty_disk_def)

section \<open>Card titles\<close>

lemma split_hd: "\<exists>ps. split sep s = takeWhile (\<lambda>c. c \<noteq> sep) s # ps"
  by (induction s) auto

lemma number_marker_Cons_Suc: "number_marker (c # cs) (Suc i) = number_marker cs i"
  by (simp add: number_marker_def)

lemma number_marker_Cons_0:
  "number_marker (c # cs) 0 = (c = CHR ''#'' \<and> takeWhile is_word cs \<noteq> [])"
  by (cases cs) (auto simp: number_marker_def)

lemma search_number_None: "(search_number t = None) = (\<forall>i. \<not> number_marker t i)"
proof (induction t)
  case Nil
  then show ?case by (simp add: number_marker_def)
next
  case (Cons c cs)
  show ?case
  proof (cases "number_marker (c # cs) 0")
    case True
    then show ?thesis using number_marker_Cons_0 [of c cs] by auto
  next
    case False
    then have "search_number (c # cs) = search_number cs"
      using number_marker_Cons_0 [of c cs] by auto
    moreover have "(\<forall>i. \<not> number_marker (c # cs) i) = (\<forall>i. \<not> number_marker cs i)"
    proof
      assume a: "\<forall>i. \<not> number_marker (c # cs) i"
      show "\<forall>i. \<not> number_marker cs i"
      proof
        fix i show "\<not> number_marker cs i" using a number_marker_Cons_Suc [of c cs i] by blast
      qed
    next
      assume a: "\<forall>i. \<not> number_marker cs i"
      show "\<forall>i. \<not> number_marker (c # cs) i"
      proof
        fix i show "\<not> number_marker (c # cs) i"
          using a False number_marker_Cons_Suc [of c cs] by (cases i) auto
      qed
    qed
    ultimately show ?thesis using Cons.IH by simp
  qed
qed

lemma search_number_first:
  "number_marker t i \<Longrightarrow> (\<forall>j<i. \<not> number_marker t j)
    \<Longrightarrow> search_number t = Some (takeWhile is_word (drop (Suc i) t))"
proof (induction t arbitrary: i)
  case Nil
  then show ?case by (simp add: number_marker_def)
next
  case (Cons c cs)
  show ?case
  proof (cases "number_marker (c # cs) 0")
    case True
    then have "i = 0" using Cons.prems(2) by (cases i) auto
    then show ?thesis using True number_marker_Cons_0 [of c cs] by simp
  next
    case False
    then obtain k where k: "i = Suc k" using Cons.prems(1) by (cases i) auto
    have "number_marker cs k" using Cons.prems(1) k number_marker_Cons_Suc by simp
    moreover have "\<forall>j<k. \<not> number_marker cs j"
      using Cons.prems(2) k number_marker_Cons_Suc [of c cs] by auto
    ultimately have "search_number cs = Some (takeWhile is_word (drop (Suc k) cs))"
      using Cons.IH by blast
    then show ?thesis using False k number_marker_Cons_0 [of c cs] by auto
  qed
qed

text \<open>
  Claim C6, as amended. For a title that is not empty, the name is the text before the
  first separator (the whole title when there is none), stripped, cleaned and stripped
  again; the number is the run of word characters after the first \<open>#\<close> that a word
  character follows, and \<open>"0"\<close> when the title has no such marker.
\<close>

theorem parse_card_title_parts:
  "t \<noteq> [] \<Longrightarrow>
   fst (parse_card_title t) = strip (clean_name (strip (takeWhile (\<lambda>c. c \<noteq> middle_dot) t)))
   \<and> (\<forall>i. number_marker t i \<and> (\<forall>j<i. \<not> number_marker t j)
        \<longrightarrow> snd (parse_card_title t) = takeWhile is_word (drop (Suc i) t))
   \<and> ((\<forall>i. \<not> number_marker t i) \<longrightarrow> snd (parse_card_title t) = ''0'')"
proof (intro conjI allI impI)
  obtain ps where "split middle_dot t = takeWhile (\<lambda>c. c \<noteq> middle_dot) t # ps"
    using split_hd by blast
  then show "fst (parse_card_title t)
      = strip (clean_name (strip (takeWhile (\<lambda>c. c \<noteq> middle_dot) t)))"
    by (simp add: parse_card_title_def)
next
  fix i
  assume "number_marker t i \<and> (\<forall>j<i. \<not> number_marker t j)"
  then have "search_number t = Some (takeWhile is_word (drop (Suc i) t))"
    using search_number_first by blast
  then show "snd (parse_card_title t) = takeWhile is_word (drop (Suc i) t)"
    by (simp add: parse_card_title_def Let_def)
next
  assume "\<forall>i. \<not> number_marker t i"
  then have "search_number t = None" using search_number_None by blast
  then show "snd (parse_card_title t) = ''0''"
    by (simp add: parse_card_title_def Let_def)
qed

text \<open>
  Claim C6 as stated fails: a title with neither a separator nor a number marker does
  not get the name \<open>"Unknown"\<close>; its name is the cleaned title itself.
\<close>

theorem parse_card_title_unknown_counterexample:
  "middle_dot \<notin> set plain_title \<and> search_number plain_title = None
   \<and> parse_card_title plain_title = (''Pikachu'', ''0'')
   \<and> fst (parse_card_title plain_title) \<noteq> ''Unknown''"
proof -
  have a: "parse_card_title plain_title = (''Pikachu'', ''0'')"
    by (simp add: plain_title_def parse_card_title_def middle_dot_def strip_def clean_name_def
        is_word_def is_space_def is_alnum_def)
  have b: "search_number plain_title = None" by (simp add: plain_title_def)
  have c: "middle_dot \<notin> set plain_title" by (simp add: plain_title_def middle_dot_def)
  show ?thesis using a b c by simp
qed

theorem parse_card_title_parts_witness:
  "marked_title \<noteq> [] \<and> plain_title \<noteq> []
   \<and> number_marker marked_title 12
   \<and> parse_card_title marked_title = (''Abra'', ''43'')
   \<and> snd (parse_card_title plain_title) = ''0''"
proof -
  have m: "number_marker marked_title 12"
    by (simp add: marked_title_def number_marker_def is_word_def is_alnum_def)
  have l: "\<forall>j<12. \<not> number_marker marked_title j"
    by (simp add: marked_title_def number_marker_def middle_dot_def All_less_Suc eval_nat_numeral)
  have "search_number plain_title = None" by (simp add: plain_title_def)
  then have n: "\<forall>i. \<not> number_marker plain_title i" using search_number_None by blast
  have ne: "marked_title \<noteq> []" "plain_title \<noteq> []"
    by (simp_all add: marked_title_def plain_title_def)
  have v1: "strip (clean_name (strip (takeWhile (\<lambda>c. c \<noteq> middle_dot) marked_title))) = ''Abra''"
    by (simp add: marked_title_def middle_dot_def strip_def clean_name_def
        is_word_def is_space_def is_alnum_def)
  have v2: "takeWhile is_word (drop (Suc 12) marked_title) = ''43''"
    by (simp add: marked_title_def is_word_def is_alnum_def)
  have "fst (parse_card_title marked_title) = ''Abra''"
    and "snd (parse_card_title marked_title) = ''43''"
    and "snd (parse_card_title plain_title) = ''0''"
    using parse_card_title_parts [OF ne(1)] parse_card_title_parts [OF ne(2)] m l n v1 v2
    by auto
  then show ?thesis using ne m by (simp add: prod_eq_iff)
qed

section \<open>Counting and scanning a set\<close>

lemma count_articles_acc: "count_articles n as = n + count_articles 0 as"
proof (induction as arbitrary: n)
  case Nil
  then show ?case by simp
next
  case (Cons a as)
  have "count_articles (n + 1) as = n + 1 + count_articles 0 as" using Cons.IH by blast
  moreover have "count_articles (0 + 1) as = 0 + 1 + count_articles 0 as" using Cons.IH by blast
  moreover have "count_articles n as = n + count_articles 0 as" using Cons.IH by blast
  ultimately show ?case by (simp split: option.splits)
qed

lemma card_articles_length:
  "length (card_articles info cs as) = length cs + count_articles 0 as"
proof (induction as arbitrary: cs)
  case Nil
  then show ?case by simp
next
  case (Cons a as)
  have "count_articles (Suc 0) as = Suc (count_articles 0 as)"
    using count_articles_acc [of "Suc 0" as] by simp
  then show ?case using Cons.IH by (simp split: option.splits)
qed

lemma count_articles_valid: "count_articles n as = n + length (filter valid_article as)"
  by (induction as arbitrary: n) (auto simp: valid_article_def split: option.splits)

text \<open>
  Claim C4. The count of a page is the length of the list of cards scanned from the same
  page: the loop of \<open>count_cards_in_set\<close> counts exactly the valid articles, and the loop
  of \<open>get_card_images_from_set\<close> makes one card of each. Whenever the two functions fetch
  the same page content (a page, or nothing after three failures), the number returned by
  the first is the length of the list returned by the second; the count is a number and
  holds no card.
\<close>

theorem count_matches_scan:
  "count_articles 0 as = length (card_articles info [] as)
   \<and> count_articles 0 as = length (filter valid_article as)
   \<and> (get_page_content env set_url 3 s1 = (Inr page, t1)
        \<and> get_page_content env set_url 3 s2 = (Inr page, t2)
      \<longrightarrow> (\<exists>cs. get_card_images_from_set env set_url info s2 = (Inr cs, t2)
             \<and> count_cards_in_set env set_url info s1 = (Inr (length cs), t1)))"
  using count_articles_valid [of 0 as]
  by (cases page)
    (simp_all add: card_articles_length count_cards_in_set_def get_card_images_from_set_def)

theorem count_matches_scan_witness:
  "get_page_content calm_env ''https://pkmncards.com/set/jungle/'' 3 empty_disk =
     (Inr (Some set_page),
      empty_disk\<lparr>clock := 1, events := [Get ''https://pkmncards.com/set/jungle/'']\<rparr>)
   \<and> count_cards_in_set calm_env ''https://pkmncards.com/set/jungle/'' (two_sets ! 1) empty_disk =
     (Inr 3, empty_disk\<lparr>clock := 1, events := [Get ''https://pkmncards.com/set/jungle/'']\<rparr>)"
proof -
  let ?u = "''https://pkmncards.com/set/jungle/''"
  let ?t = "empty_disk\<lparr>clock := 1, events := [Get ?u]\<rparr>"
  have h: "get_page_content calm_env ?u 3 empty_disk = (Inr (Some set_page), ?t)"
    by code_simp
  obtain cs where g: "get_card_images_from_set calm_env ?u (two_sets ! 1) empty_disk = (Inr cs, ?t)"
    and c: "count_cards_in_set calm_env ?u (two_sets ! 1) empty_disk = (Inr (length cs), ?t)"
    using count_matches_scan [of "[]" "two_sets ! 1" calm_env ?u empty_disk "Some set_page" ?t empty_disk ?t] h
    by blast
  have "length (card_articles (two_sets ! 1) [] (articles set_page)) = 3"
    by code_simp
  then have "length cs = 3" using g h by (simp add: get_card_images_from_set_def)
  then show ?thesis using h c by simp
qed

section \<open>The set links\<close>



lemma dropWhile_fix: "xs = [] \<or> \<not> P (hd xs) \<Longrightarrow> dropWhile P xs = xs"
  by (cases xs) auto

lemma strip_ends: "strip s = [] \<or> (\<not> is_space (hd (strip s)) \<and> \<not> is_space (last (strip s)))"
proof (cases "strip s = []")
  case True
  then show ?thesis by simp
next
  case False
  define a where "a = dropWhile is_space s"
  define b where "b = dropWhile is_space (rev a)"
  have sb: "strip s = rev b" by (simp add: strip_def a_def b_def)
  have bne: "b \<noteq> []" using False sb by simp
  have hb: "\<not> is_space (hd b)" using bne unfolding b_def by (rule hd_dropWhile)
  have ane: "a \<noteq> []" using bne b_def by auto
  have ha: "\<not> is_space (hd a)" using ane unfolding a_def by (rule hd_dropWhile)
  obtain pre where pre: "rev a = pre @ b"
    using takeWhile_dropWhile_id [of is_space "rev a"] b_def by metis
  have "last b = last (rev a)" using pre bne by simp
  then have "last b = hd a" using ane by (simp add: last_rev)
  then have "\<not> is_space (last b)" using ha by simp
  then show ?thesis using sb hb bne by (simp add: hd_rev last_rev)
qed

lemma strip_idem: "strip (strip s) = strip s"
proof (cases "strip s = []")
  case True
  have "strip [] = []" by (simp add: strip_def)
  then show ?thesis by (simp only: True)
next
  case False
  then have h: "\<not> is_space (hd (strip s))" and l: "\<not> is_space (last (strip s))"
    using strip_ends [of s] by auto
  have 1: "dropWhile is_space (strip s) = strip s"
    using h by (intro dropWhile_fix) simp
  have 2: "dropWhile is_space (rev (strip s)) = rev (strip s)"
    using l False by (intro dropWhile_fix) (simp add: hd_rev)
  have "strip (strip s) = rev (dropWhile is_space (rev (dropWhile is_space (strip s))))"
    by (rule strip_def)
  also have "\<dots> = rev (dropWhile is_space (rev (strip s)))" by (simp only: 1)
  also have "\<dots> = rev (rev (strip s))" by (simp only: 2)
  finally show ?thesis by simp
qed



lemma not_in_takeWhile: "x \<notin> set (takeWhile (\<lambda>c. c \<noteq> x) xs)"
proof
  assume "x \<in> set (takeWhile (\<lambda>c. c \<noteq> x) xs)"
  then have "x \<noteq> x" by (rule set_takeWhileD [THEN conjunct2])
  then show False by simp
qed

lemma search_code_Some:
  "search_code s = Some b \<Longrightarrow>
   b \<noteq> [] \<and> CHR '')'' \<notin> set b
   \<and> (\<exists>pre. s = pre @ CHR ''('' # b @ '')'' \<or> s = pre @ CHR ''('' # b @ [CHR '')'', newline])"
proof (induction s)
  case Nil
  then show ?case by simp
next
  case (Cons c cs)
  let ?tk = "takeWhile (\<lambda>x. x \<noteq> CHR '')'') cs"
  let ?dr = "dropWhile (\<lambda>x. x \<noteq> CHR '')'') cs"
  show ?case
  proof (cases "c = CHR ''('' \<and> ?tk \<noteq> [] \<and> (?dr = '')'' \<or> ?dr = [CHR '')'', newline])")
    case True
    have "search_code (c # cs) = Some ?tk" by (simp only: search_code.simps if_P [OF True])
    then have b: "b = ?tk" using Cons.prems by (simp only: option.inject)
    have cs: "cs = b @ ?dr" unfolding b by simp
    have n: "b \<noteq> []" using True unfolding b by (rule conjunct1 [OF conjunct2])
    have m: "CHR '')'' \<notin> set b" unfolding b by (rule not_in_takeWhile)
    have c: "c = CHR ''(''" using True by (rule conjunct1)
    have "?dr = '')'' \<or> ?dr = [CHR '')'', newline]" using True by (rule conjunct2 [OF conjunct2])
    then have "c # cs = [] @ CHR ''('' # b @ '')''
        \<or> c # cs = [] @ CHR ''('' # b @ [CHR '')'', newline]"
    proof
      assume d: "?dr = '')''"
      have "cs = b @ '')''" using cs unfolding d .
      then show ?thesis unfolding c by (simp only: append_Nil simp_thms)
    next
      assume d: "?dr = [CHR '')'', newline]"
      have "cs = b @ [CHR '')'', newline]" using cs unfolding d .
      then show ?thesis unfolding c by (simp only: append_Nil simp_thms)
    qed
    then have "\<exists>pre. c # cs = pre @ CHR ''('' # b @ '')''
        \<or> c # cs = pre @ CHR ''('' # b @ [CHR '')'', newline]"
      by (rule exI [of _ "[]"])
    then show ?thesis using n m by (simp only: simp_thms)
  next
    case False
    have "search_code (c # cs) = search_code cs"
      by (simp only: search_code.simps if_not_P [OF False])
    then have "search_code cs = Some b" using Cons.prems by (simp only:)
    then have ih: "b \<noteq> [] \<and> CHR '')'' \<notin> set b
      \<and> (\<exists>pre. cs = pre @ CHR ''('' # b @ '')'' \<or> cs = pre @ CHR ''('' # b @ [CHR '')'', newline])"
      by (rule Cons.IH)
    then obtain pre where
      "cs = pre @ CHR ''('' # b @ '')'' \<or> cs = pre @ CHR ''('' # b @ [CHR '')'', newline]"
      by (elim conjE exE)
    then have "c # cs = (c # pre) @ CHR ''('' # b @ '')''
        \<or> c # cs = (c # pre) @ CHR ''('' # b @ [CHR '')'', newline]"
      by (simp only: append_Cons list.inject simp_thms)
    then have "\<exists>pre. c # cs = pre @ CHR ''('' # b @ '')''
        \<or> c # cs = pre @ CHR ''('' # b @ [CHR '')'', newline]"
      by (rule exI [of _ "c # pre"])
    then show ?thesis using ih by (simp only: simp_thms)
  qed
qed


lemma takeWhile_until: "x \<notin> set b \<Longrightarrow> takeWhile (\<lambda>c. c \<noteq> x) (b @ x # r) = b"
  by (induction b) auto

lemma dropWhile_until: "x \<notin> set b \<Longrightarrow> dropWhile (\<lambda>c. c \<noteq> x) (b @ x # r) = x # r"
  by (induction b) auto

lemma search_code_longest:
  "b \<noteq> [] \<Longrightarrow> CHR '')'' \<notin> set b \<Longrightarrow>
   \<exists>b'. search_code (pre @ CHR ''('' # b @ '')'') = Some b' \<and> length b \<le> length b'"
proof (induction pre)
  case Nil
  then show ?case
    using takeWhile_until [of "CHR '')''" b "[]"] dropWhile_until [of "CHR '')''" b "[]"]
    by simp
next
  case (Cons p ps)
  let ?cs = "ps @ CHR ''('' # b @ '')''"
  let ?tk = "takeWhile (\<lambda>x. x \<noteq> CHR '')'') ?cs"
  let ?dr = "dropWhile (\<lambda>x. x \<noteq> CHR '')'') ?cs"
  show ?case
  proof (cases "p = CHR ''('' \<and> ?tk \<noteq> [] \<and> (?dr = '')'' \<or> ?dr = [CHR '')'', newline])")
    case True
    have cs: "?cs = ?tk @ ?dr" by simp
    have lc: "last ?cs = CHR '')''" by simp
    have "?dr \<noteq> [CHR '')'', newline]"
    proof
      assume d: "?dr = [CHR '')'', newline]"
      have "last (?tk @ ?dr) = newline" unfolding d by simp
      then have "last ?cs = newline" by simp
      then show False using lc by (simp add: newline_def)
    qed
    then have d: "?dr = '')''" using True by simp
    have "butlast ?cs = butlast (?tk @ ?dr)" by simp
    then have "ps @ CHR ''('' # b = ?tk" unfolding d by (simp add: butlast_append)
    then have "search_code ((p # ps) @ CHR ''('' # b @ '')'') = Some (ps @ CHR ''('' # b)"
      using True by simp
    then show ?thesis by simp
  next
    case False
    then have "search_code ((p # ps) @ CHR ''('' # b @ '')'') = search_code ?cs" by auto
    then show ?thesis using Cons by simp
  qed
qed

lemma paren_token_last: "paren_token n b \<Longrightarrow> n \<noteq> [] \<and> last n = CHR '')''"
  by (auto simp: paren_token_def)

lemma extract_set_code_stripped:
  assumes n: "strip n = n"
  shows "trailing_code n (extract_set_code n)"
proof (cases "\<exists>b. paren_token n b")
  case True
  then obtain b where b: "paren_token n b" by blast
  then obtain pre where pre: "n = pre @ CHR ''('' # b @ '')''" and bn: "b \<noteq> []"
    and bm: "CHR '')'' \<notin> set b"
    by (auto simp: paren_token_def)
  obtain c where c: "search_code n = Some c"
    using search_code_longest [OF bn bm, of pre] pre by auto
  have ec: "extract_set_code n = c" using c n by (simp add: extract_set_code_def)
  obtain p where cn: "c \<noteq> []" and cm: "CHR '')'' \<notin> set c"
    and p: "n = p @ CHR ''('' # c @ '')'' \<or> n = p @ CHR ''('' # c @ [CHR '')'', newline]"
    using search_code_Some [OF c] by blast
  have "n \<noteq> p @ CHR ''('' # c @ [CHR '')'', newline]"
  proof
    assume "n = p @ CHR ''('' # c @ [CHR '')'', newline]"
    then have "last n = newline" by simp
    then show False using paren_token_last [OF b] by (simp add: newline_def)
  qed
  then have "n = p @ CHR ''('' # c @ '')''" using p by blast
  then have pc: "paren_token n c" using cn cm by (auto simp: paren_token_def)
  have "\<forall>b'. paren_token n b' \<longrightarrow> length b' \<le> length c"
  proof (intro allI impI)
    fix b'
    assume "paren_token n b'"
    then obtain q where "n = q @ CHR ''('' # b' @ '')''" and "b' \<noteq> []" and "CHR '')'' \<notin> set b'"
      by (auto simp: paren_token_def)
    then show "length b' \<le> length c"
      using search_code_longest [of b' q] c by auto
  qed
  then show ?thesis using True pc ec by (simp add: trailing_code_def)
next
  case False
  have "search_code n = None"
  proof (cases "search_code n")
    case None
    then show ?thesis .
  next
    case (Some c)
    obtain p where cn: "c \<noteq> []" and cm: "CHR '')'' \<notin> set c"
      and p: "n = p @ CHR ''('' # c @ '')'' \<or> n = p @ CHR ''('' # c @ [CHR '')'', newline]"
      using search_code_Some [OF Some] by blast
    have "n \<noteq> p @ CHR ''('' # c @ '')''" using False cn cm by (auto simp: paren_token_def)
    then have e: "n = p @ CHR ''('' # c @ [CHR '')'', newline]" using p by blast
    then have "last n = newline" by simp
    moreover have "n \<noteq> []" using e by simp
    moreover have "is_space newline" by (simp add: is_space_def newline_def)
    ultimately show ?thesis using strip_ends [of n] n by auto
  qed
  then show ?thesis using False n by (simp add: extract_set_code_def trailing_code_def)
qed

lemma collect_set_links_props:
  "l \<in> set (collect_set_links as) \<Longrightarrow>
   prefix set_url_prefix (url l) \<and> trailing_code (name l) (code l)"
proof (induction as)
  case Nil
  then show ?case by simp
next
  case (Cons a as)
  obtain target label where a: "a = (target, label)" by (cases a)
  show ?case
  proof (cases "l \<in> set (collect_set_links as)")
    case True
    then show ?thesis using Cons.IH by blast
  next
    case False
    then have "l = \<lparr>url = target, name = strip label, code = extract_set_code (strip label)\<rparr>"
      and "prefix set_url_prefix target"
      using Cons.prems a by (auto simp: Let_def split: if_splits)
    then show ?thesis using extract_set_code_stripped [OF strip_idem [of label]] by simp
  qed
qed

lemma collect_set_links_order:
  "subseq (map url (collect_set_links as)) (map fst as)"
proof (induction as)
  case Nil
  then show ?case by simp
next
  case (Cons a as)
  obtain target label where a: "a = (target, label)" by (cases a)
  show ?case using Cons.IH a by (auto simp: Let_def)
qed

lemma unique_links_urls:
  "url ` set (unique_links seen xs) = url ` set xs - seen"
  by (induction xs arbitrary: seen) auto

lemma unique_links_distinct: "distinct (map url (unique_links seen xs))"
proof (induction xs arbitrary: seen)
  case Nil
  then show ?case by simp
next
  case (Cons x xs)
  have "url x \<notin> url ` set (unique_links (insert (url x) seen) xs)"
    using unique_links_urls [of "insert (url x) seen" xs] by auto
  then show ?case using Cons.IH by auto
qed

lemma unique_links_subseq: "subseq (unique_links seen xs) xs"
  by (induction xs arbitrary: seen) auto

lemma unique_links_first:
  "l \<in> set (unique_links seen xs) \<Longrightarrow> find (\<lambda>x. url x = url l) xs = Some l"
proof (induction xs arbitrary: seen)
  case Nil
  then show ?case by simp
next
  case (Cons x xs)
  show ?case
  proof (cases "l = x")
    case True
    then show ?thesis by simp
  next
    case False
    then have "l \<in> set (unique_links (insert (url x) seen) xs) \<or> (url x \<in> seen \<and> l \<in> set (unique_links seen xs))"
      using Cons.prems by (auto split: if_splits)
    then show ?thesis
    proof
      assume m: "l \<in> set (unique_links (insert (url x) seen) xs)"
      then have "url l \<in> url ` set xs - insert (url x) seen"
        using unique_links_urls [of "insert (url x) seen" xs] by blast
      then have "url x \<noteq> url l" by auto
      then show ?thesis using Cons.IH [OF m] by simp
    next
      assume m: "url x \<in> seen \<and> l \<in> set (unique_links seen xs)"
      then have "url l \<in> url ` set xs - seen"
        using unique_links_urls [of seen xs] by blast
      then have "url x \<noteq> url l" using m by auto
      moreover have "find (\<lambda>x. url x = url l) xs = Some l"
        using Cons.IH [of seen] m by blast
      ultimately show ?thesis by simp
    qed
  qed
qed

text \<open>
  Claim C7. Every set reference returned by \<open>extract_set_links\<close> has a URL that starts
  with \<open>https://pkmncards.com/set/\<close> and a code that is the token inside the trailing
  parentheses of its display name (the longest one that holds no closing parenthesis), or
  \<open>"UNKNOWN"\<close> when the name does not end with such a token. The references keep the
  order of the anchors of the page, no two share a URL, every URL found is kept, and each
  reference is the first one found with its URL; when the page cannot be fetched the list
  is empty.
\<close>

theorem extract_set_links_refs:
  assumes "extract_set_links env s = (Inr links, s')"
  shows "(\<forall>l\<in>set links. prefix set_url_prefix (url l) \<and> trailing_code (name l) (code l))
    \<and> distinct (map url links)
    \<and> (\<exists>page. get_page_content env base_url 3 s = (Inr page, s')
         \<and> (case page of
               None \<Rightarrow> links = []
             | Some r \<Rightarrow>
                 subseq links (collect_set_links (anchors r))
                 \<and> subseq (map url (collect_set_links (anchors r))) (map fst (anchors r))
                 \<and> url ` set links = url ` set (collect_set_links (anchors r))
                 \<and> (\<forall>l\<in>set links.
                       find (\<lambda>x. url x = url l) (collect_set_links (anchors r)) = Some l)))"
proof -
  obtain res t where g: "get_page_content env base_url 3 s = (res, t)"
    by (cases "get_page_content env base_url 3 s")
  show ?thesis
  proof (cases res)
    case (Inl e)
    then show ?thesis using assms g by (simp add: extract_set_links_def)
  next
    case (Inr page)
    show ?thesis
    proof (cases page)
      case None
      then show ?thesis using assms g Inr by (auto simp: extract_set_links_def)
    next
      case (Some r)
      have l: "links = unique_links {} (collect_set_links (anchors r))" and t: "t = s'"
        using assms g Inr Some by (auto simp: extract_set_links_def)
      have 1: "\<forall>l\<in>set links. prefix set_url_prefix (url l) \<and> trailing_code (name l) (code l)"
      proof
        fix x assume "x \<in> set links"
        then have "x \<in> set (collect_set_links (anchors r))"
          using unique_links_subseq [of "{}" "collect_set_links (anchors r)"] l
          by (auto dest: list_emb_set)
        then show "prefix set_url_prefix (url x) \<and> trailing_code (name x) (code x)"
          by (rule collect_set_links_props)
      qed
      have 2: "distinct (map url links)" unfolding l by (rule unique_links_distinct)
      have 3: "subseq links (collect_set_links (anchors r))" unfolding l by (rule unique_links_subseq)
      have 4: "url ` set links = url ` set (collect_set_links (anchors r))"
        unfolding l using unique_links_urls [of "{}" "collect_set_links (anchors r)"] by simp
      have 5: "\<forall>l\<in>set links. find (\<lambda>x. url x = url l) (collect_set_links (anchors r)) = Some l"
        unfolding l using unique_links_first by blast
      have 6: "get_page_content env base_url 3 s = (Inr (Some r), s')" using g Inr Some t by simp
      show ?thesis using 1 2 3 4 5 6 collect_set_links_order [of "anchors r"] by auto
    qed
  qed
qed


theorem extract_set_links_refs_witness:
  "extract_set_links calm_env empty_disk =
     (Inr two_sets, empty_disk\<lparr>clock := 1, events := [Get base_url]\<rparr>)
   \<and> distinct (map url two_sets)
   \<and> prefix set_url_prefix ''https://pkmncards.com/set/jungle/''
   \<and> trailing_code ''Jungle (JU)'' ''JU''"
proof -
  have h: "extract_set_links calm_env empty_disk =
     (Inr two_sets, empty_disk\<lparr>clock := 1, events := [Get base_url]\<rparr>)"
    by code_simp
  have "distinct (map url two_sets)"
    and "\<forall>l\<in>set two_sets. prefix set_url_prefix (url l) \<and> trailing_code (name l) (code l)"
    using extract_set_links_refs [OF h] by blast+
  then show ?thesis using h by (simp add: two_sets_def)
qed


section \<open>The text files of the metadata\<close>


lemma enumerate_lines:
  "map (\<lambda>(i, n). f i n) (enumerate 0 xs) = map (\<lambda>i. f i (xs ! i)) [0..<length xs]"
  by (rule nth_equalityI) (simp_all add: nth_enumerate_eq)

lemma classes_text_lines:
  "classes_text d =
   concat (map (\<lambda>i. str i @ '': '' @ pokemon_names d ! i @ [newline])
     [0..<length (pokemon_names d)])"
  unfolding classes_text_def
  using enumerate_lines [of "\<lambda>i n. str i @ '': '' @ n @ [newline]" "pokemon_names d"]
  by simp

lemma pokemon_names_sorted:
  "sorted (pokemon_names d) \<and> distinct (pokemon_names d)
   \<and> set (pokemon_names d) = pokemon_name ` set d"
  by (simp add: pokemon_names_def)

lemma cards_in_set_0: "(cards_in_set d n = 0) = (n \<notin> set_name ` set d)"
  by (auto simp: cards_in_set_def filter_empty_conv)

lemma group_by_set_map_of:
  "distinct (map fst sets) \<Longrightarrow>
   distinct (map fst (group_by_set sets d))
   \<and> map_of (group_by_set sets d) n =
       (case map_of sets n of
          None \<Rightarrow> if cards_in_set d n = 0 then None else Some (cards_in_set d n)
        | Some k \<Rightarrow> Some (k + cards_in_set d n))"
proof (induction d arbitrary: sets)
  case Nil
  then show ?case by (simp add: cards_in_set_def split: option.splits)
next
  case (Cons c d)
  let ?m = "set_name c"
  define sets1 where "sets1 = (if map_of sets ?m = None then AList.update ?m 0 sets else sets)"
  define k0 where "k0 = (case map_of sets ?m of None \<Rightarrow> 0 | Some k \<Rightarrow> k)"
  have d1: "distinct (map fst sets1)" using Cons.prems by (simp add: sets1_def distinct_update)
  have m1: "map_of sets1 ?m = Some k0"
    by (auto simp: sets1_def k0_def update_conv')
  have o1: "\<And>x. x \<noteq> ?m \<Longrightarrow> map_of sets1 x = map_of sets x"
    by (simp add: sets1_def update_conv')
  define sets2 where "sets2 = AList.update ?m (k0 + 1) sets1"
  have d2: "distinct (map fst sets2)" using d1 by (simp add: sets2_def distinct_update)
  have m2: "map_of sets2 ?m = Some (k0 + 1)" by (simp add: sets2_def update_conv')
  have o2: "\<And>x. x \<noteq> ?m \<Longrightarrow> map_of sets2 x = map_of sets x"
    using o1 by (simp add: sets2_def update_conv')
  have g: "group_by_set sets (c # d) = group_by_set sets2 d"
    using m1 by (simp add: sets1_def sets2_def Let_def)
  have ih: "distinct (map fst (group_by_set sets2 d))
    \<and> map_of (group_by_set sets2 d) n =
       (case map_of sets2 n of
          None \<Rightarrow> if cards_in_set d n = 0 then None else Some (cards_in_set d n)
        | Some k \<Rightarrow> Some (k + cards_in_set d n))"
    using Cons.IH [OF d2] .
  show ?case
  proof (cases "n = ?m")
    case True
    have e: "cards_in_set (c # d) n = Suc (cards_in_set d n)"
      using True by (simp add: cards_in_set_def)
    have "map_of sets2 n = Some (k0 + 1)" using m2 True by simp
    then show ?thesis unfolding g e using ih unfolding True by (simp add: k0_def split: option.splits)
  next
    case False
    have e: "cards_in_set (c # d) n = cards_in_set d n"
      using False by (auto simp: cards_in_set_def)
    have "map_of sets2 n = map_of sets n" using o2 False by simp
    then show ?thesis unfolding g e using ih by simp
  qed
qed

lemma group_by_set_set:
  "distinct (map fst (group_by_set [] d))
   \<and> set (group_by_set [] d) = (\<lambda>n. (n, cards_in_set d n)) ` set (map set_name d)"
proof -
  have a: "distinct (map fst (group_by_set [] d))"
    and b: "\<And>n. map_of (group_by_set [] d) n
        = (if cards_in_set d n = 0 then None else Some (cards_in_set d n))"
    using group_by_set_map_of [of "[]" d] by simp_all
  have mem: "((n, k) \<in> set (group_by_set [] d)) = (map_of (group_by_set [] d) n = Some k)" for n k
    using map_of_eq_Some_iff [OF a, of n k] by simp
  have "set (group_by_set [] d) = (\<lambda>n. (n, cards_in_set d n)) ` (set_name ` set d)"
  proof (intro set_eqI iffI)
    fix p
    assume p: "p \<in> set (group_by_set [] d)"
    obtain n k where nk: "p = (n, k)" by (cases p)
    have "map_of (group_by_set [] d) n = Some k" using p nk mem by simp
    then have "cards_in_set d n \<noteq> 0 \<and> k = cards_in_set d n"
      unfolding b by (simp split: if_splits)
    then have k: "k = cards_in_set d n" and n: "n \<in> set_name ` set d"
      using cards_in_set_0 [of d n] by simp_all
    show "p \<in> (\<lambda>n. (n, cards_in_set d n)) ` (set_name ` set d)"
      unfolding nk k using n by (rule image_eqI [OF refl])
  next
    fix p
    assume "p \<in> (\<lambda>n. (n, cards_in_set d n)) ` (set_name ` set d)"
    then obtain n where n: "n \<in> set_name ` set d" and p: "p = (n, cards_in_set d n)"
      by (rule imageE)
    have "cards_in_set d n \<noteq> 0" using n cards_in_set_0 [of d n] by simp
    then have "map_of (group_by_set [] d) n = Some (cards_in_set d n)" unfolding b by simp
    then show "p \<in> set (group_by_set [] d)" using p mem by simp
  qed
  then show ?thesis using a by simp
qed

lemma sorted_group_by_set:
  "sort (group_by_set [] d)
   = map (\<lambda>n. (n, cards_in_set d n)) (sort (remdups (map set_name d)))"
proof (rule sorted_distinct_set_unique)
  show "sorted (sort (group_by_set [] d))" by simp
  show "distinct (sort (group_by_set [] d))"
    using group_by_set_set [of d] by (simp add: distinct_map)
  have "sorted_wrt (\<lambda>x y. x < y) (sort (remdups (map set_name d)))"
    by (simp add: strict_sorted_iff)
  then have "sorted_wrt (\<lambda>x y. (x, cards_in_set d x) \<le> (y, cards_in_set d y))
      (sort (remdups (map set_name d)))"
    by (rule sorted_wrt_mono_rel [rotated]) (simp add: less_eq_prod_def)
  then show "sorted (map (\<lambda>n. (n, cards_in_set d n)) (sort (remdups (map set_name d))))"
    by (simp add: sorted_map)
  show "distinct (map (\<lambda>n. (n, cards_in_set d n)) (sort (remdups (map set_name d))))"
    by (simp add: distinct_map inj_on_def)
  show "set (sort (group_by_set [] d))
    = set (map (\<lambda>n. (n, cards_in_set d n)) (sort (remdups (map set_name d))))"
    using group_by_set_set [of d] by simp
qed

lemma summary_text_lines:
  "summary_text d f =
   summary_head d f
   @ concat (map (\<lambda>n. ''  '' @ n @ '': '' @ str (cards_in_set d n) @ '' cards'' @ [newline])
       (sort (remdups (map set_name d))))"
  by (simp add: summary_text_def summary_head_def sorted_group_by_set comp_def)

lemma save_metadata_files:
  "save_metadata env s = (Inr u, s') \<Longrightarrow>
   cards_metadata s' = Some (snapshot s)
   \<and> pokemon_classes s' = Some (classes_text (downloaded_cards s))
   \<and> download_summary s' = Some (summary_text (downloaded_cards s) (failed_downloads s))
   \<and> downloaded_cards s' = downloaded_cards s \<and> failed_downloads s' = failed_downloads s
   \<and> images s' = images s"
  by (auto simp: save_metadata_def and_then_def write_file_def tick_def split: option.splits)


text \<open>
  Claim C9. When nothing stops its three writes, \<open>save_metadata\<close> returns normally, and
  whenever it does: \<open>pokemon_classes.txt\<close> holds one line \<open>{index}: {name}\<close> for each
  distinct name of the downloaded cards, the names in ascending order and the indices
  counting from 0 in that order; \<open>download_summary.txt\<close> holds, after its head with the
  totals, one line \<open>{set_name}: {count} cards\<close> for each set that has a downloaded card,
  the sets in ascending order of their display names and the count being the number of
  downloaded cards of the set.
\<close>

theorem save_metadata_text_files:
  "(fault env (clock s) = None \<and> fault env (clock s + 1) = None \<and> fault env (clock s + 2) = None
      \<longrightarrow> fst (save_metadata env s) = Inr ())
   \<and> (save_metadata env s = (Inr u, s') \<longrightarrow>
        pokemon_classes s' =
          Some (concat (map (\<lambda>i. str i @ '': '' @ pokemon_names (downloaded_cards s) ! i @ [newline])
                  [0..<length (pokemon_names (downloaded_cards s))]))
        \<and> sorted (pokemon_names (downloaded_cards s))
        \<and> distinct (pokemon_names (downloaded_cards s))
        \<and> set (pokemon_names (downloaded_cards s)) = pokemon_name ` set (downloaded_cards s)
        \<and> download_summary s' =
          Some (summary_head (downloaded_cards s) (failed_downloads s)
                @ concat (map (\<lambda>n. ''  '' @ n @ '': '' @ str (cards_in_set (downloaded_cards s) n)
                                 @ '' cards'' @ [newline])
                    (sort (remdups (map set_name (downloaded_cards s)))))))"
proof (intro conjI impI)
  assume "fault env (clock s) = None \<and> fault env (clock s + 1) = None \<and> fault env (clock s + 2) = None"
  then show "fst (save_metadata env s) = Inr ()"
    by (simp add: save_metadata_def and_then_def write_file_def tick_def)
next
  assume a: "save_metadata env s = (Inr u, s')"
  show "pokemon_classes s' =
      Some (concat (map (\<lambda>i. str i @ '': '' @ pokemon_names (downloaded_cards s) ! i @ [newline])
              [0..<length (pokemon_names (downloaded_cards s))]))"
    using save_metadata_files [OF a] classes_text_lines [of "downloaded_cards s"] by simp
  show "download_summary s' =
      Some (summary_head (downloaded_cards s) (failed_downloads s)
            @ concat (map (\<lambda>n. ''  '' @ n @ '': '' @ str (cards_in_set (downloaded_cards s) n)
                             @ '' cards'' @ [newline])
                (sort (remdups (map set_name (downloaded_cards s))))))"
    using save_metadata_files [OF a]
      summary_text_lines [of "downloaded_cards s" "failed_downloads s"] by simp
  show "sorted (pokemon_names (downloaded_cards s))"
    and "distinct (pokemon_names (downloaded_cards s))"
    and "set (pokemon_names (downloaded_cards s)) = pokemon_name ` set (downloaded_cards s)"
    using pokemon_names_sorted [of "downloaded_cards s"] by simp_all
qed

theorem save_metadata_text_files_witness:
  "fst (save_metadata calm_env shelf) = Inr ()
   \<and> pokemon_classes (snd (save_metadata calm_env shelf)) =
       Some (''0: Abra'' @ [newline] @ ''1: Pikachu'' @ [newline])
   \<and> download_summary (snd (save_metadata calm_env shelf)) =
       Some (summary_head (downloaded_cards shelf) []
             @ ''  Base Set (BS): 1 cards'' @ [newline] @ ''  Jungle (JU): 2 cards'' @ [newline])"
proof -
  have f: "fault calm_env (clock shelf) = None \<and> fault calm_env (clock shelf + 1) = None
      \<and> fault calm_env (clock shelf + 2) = None"
    by (simp add: calm_env_def)
  have r: "fst (save_metadata calm_env shelf) = Inr ()"
    using save_metadata_text_files [of calm_env shelf] f by blast
  then have p: "save_metadata calm_env shelf = (Inr (), snd (save_metadata calm_env shelf))"
    by (simp add: prod_eq_iff)
  have v1: "concat (map (\<lambda>i. str i @ '': '' @ pokemon_names (downloaded_cards shelf) ! i @ [newline])
        [0..<length (pokemon_names (downloaded_cards shelf))])
      = ''0: Abra'' @ [newline] @ ''1: Pikachu'' @ [newline]"
    by code_simp
  have v2: "concat (map (\<lambda>n. ''  '' @ n @ '': '' @ str (cards_in_set (downloaded_cards shelf) n)
                             @ '' cards'' @ [newline])
                (sort (remdups (map set_name (downloaded_cards shelf)))))
      = ''  Base Set (BS): 1 cards'' @ [newline] @ ''  Jungle (JU): 2 cards'' @ [newline]"
    by code_simp
  have v3: "failed_downloads shelf = []" by (simp add: shelf_def empty_disk_def)
  show ?thesis
    using save_metadata_text_files [of calm_env shelf "()" "snd (save_metadata calm_env shelf)"] p r v1 v2 v3
    by simp
qed

section \<open>What the operations leave unchanged\<close>


lemma tick_fields [simp]:
  "downloaded_cards (tick ev s) = downloaded_cards s"
  "failed_downloads (tick ev s) = failed_downloads s"
  "total_cards_expected (tick ev s) = total_cards_expected s"
  "images (tick ev s) = images s"
  "cards_metadata (tick ev s) = cards_metadata s"
  "pokemon_classes (tick ev s) = pokemon_classes s"
  "download_summary (tick ev s) = download_summary s"
  "clock (tick ev s) = Suc (clock s)"
  "events (tick ev s) = events s @ [ev]"
  by (simp_all add: tick_def)

lemma same_store_refl [simp]: "same_store s s"
  by (simp add: same_store_def)

lemma same_store_trans: "same_store a b \<Longrightarrow> same_store b c \<Longrightarrow> same_store a c"
  by (simp add: same_store_def)

lemma same_store_tick [simp]: "same_store s (tick ev s)"
  by (simp add: same_store_def)

lemma raised_mono:
  "raised env b c e \<Longrightarrow> clock a \<le> clock b \<Longrightarrow> clock c \<le> clock d \<Longrightarrow> raised env a d e"
  unfolding raised_def by (meson le_trans less_le_trans)

lemma http_get_frame:
  assumes "http_get env u s = (res, s')"
  shows "s' = tick (Get u) s \<and> (\<forall>e. res = Inl e \<longrightarrow> fault env (clock s) = Some e)
    \<and> (\<forall>r. res = Inr r \<longrightarrow> fault env (clock s) = None)"
  using assms by (auto simp: http_get_def split: option.splits)

lemma sleep_frame:
  assumes "sleep env d s = (res, s')"
  shows "s' = tick (Sleep d) s \<and> (\<forall>e. res = Inl e \<longrightarrow> e = KeyboardInterrupt \<and> fault env (clock s) = Some e)"
  using assms by (auto simp: sleep_def split: if_splits)

lemma raised_tick: "fault env (clock s) = Some e \<Longrightarrow> raised env s (tick ev s) e"
  unfolding raised_def by (rule exI [of _ "clock s"]) simp

lemma attempts_frame:
  "attempts env u r xs s = (res, s') \<Longrightarrow>
   same_store s s' \<and> clock s \<le> clock s' \<and> total_cards_expected s' = total_cards_expected s
   \<and> (\<forall>e. res = Inl e \<longrightarrow> raised env s s' e)"
proof (induction xs arbitrary: s)
  case Nil
  then show ?case by auto
next
  case (Cons attempt rest)
  obtain r1 s1 where g: "http_get env u s = (r1, s1)" by (cases "http_get env u s")
  have s1: "s1 = tick (Get u) s" using http_get_frame [OF g] by simp
  show ?case
  proof (cases r1)
    case (Inr resp)
    then show ?thesis using Cons.prems g s1 by auto
  next
    case (Inl e)
    then have fe: "fault env (clock s) = Some e" using http_get_frame [OF g] by simp
    show ?thesis
    proof (cases "e = RequestException")
      case False
      then have "res = Inl e" "s' = s1" using Cons.prems g Inl by auto
      then show ?thesis using s1 raised_tick [OF fe] by auto
    next
      case True
      show ?thesis
      proof (cases "int attempt < int r - 1")
        case False
        then have "res = Inr None" "s' = s1" using Cons.prems g Inl True by auto
        then show ?thesis using s1 by auto
      next
        case lt: True
        obtain r2 s2 where sl: "sleep env (Seconds (2 ^ attempt)) s1 = (r2, s2)"
          by (cases "sleep env (Seconds (2 ^ attempt)) s1")
        have s2: "s2 = tick (Sleep (Seconds (2 ^ attempt))) s1" using sleep_frame [OF sl] by simp
        show ?thesis
        proof (cases r2)
          case (Inl e')
          then have "res = Inl e'" "s' = s2" using Cons.prems g \<open>r1 = Inl e\<close> True lt sl by auto
          moreover have "fault env (clock s1) = Some e'" using sleep_frame [OF sl] Inl by simp
          then have "raised env s1 s2 e'" unfolding s2 by (rule raised_tick)
          then have "raised env s s2 e'" by (rule raised_mono) (simp_all add: s1)
          ultimately show ?thesis using s1 s2 by (auto simp: same_store_def)
        next
          case (Inr x)
          then have a: "attempts env u r rest s2 = (res, s')"
            using Cons.prems g \<open>r1 = Inl e\<close> True lt sl by auto
          have ih: "same_store s2 s' \<and> clock s2 \<le> clock s'
            \<and> total_cards_expected s' = total_cards_expected s2
            \<and> (\<forall>e. res = Inl e \<longrightarrow> raised env s2 s' e)"
            using Cons.IH [OF a] .
          have c: "clock s \<le> clock s2" by (simp add: s1 s2)
          have "\<forall>e. res = Inl e \<longrightarrow> raised env s s' e"
            using ih c raised_mono [of env s2 s' _ s s'] by auto
          then show ?thesis using ih c s1 s2 by (auto simp: same_store_def)
        qed
      qed
    qed
  qed
qed

lemma get_page_content_frame:
  "get_page_content env u r s = (res, s') \<Longrightarrow>
   same_store s s' \<and> clock s \<le> clock s' \<and> total_cards_expected s' = total_cards_expected s
   \<and> (\<forall>e. res = Inl e \<longrightarrow> raised env s s' e)"
  unfolding get_page_content_def by (rule attempts_frame)


section \<open>Downloading one image\<close>


lemma trace_fields [simp]:
  "downloaded_cards (trace ev s) = downloaded_cards s"
  "failed_downloads (trace ev s) = failed_downloads s"
  "total_cards_expected (trace ev s) = total_cards_expected s"
  "images (trace ev s) = images s"
  "cards_metadata (trace ev s) = cards_metadata s"
  "pokemon_classes (trace ev s) = pokemon_classes s"
  "download_summary (trace ev s) = download_summary s"
  "clock (trace ev s) = clock s"
  "events (trace ev s) = events s @ [ev]"
  by (simp_all add: trace_def)

lemma write_image_frame:
  assumes "write_image env p data s = (res, s')"
  shows "downloaded_cards s' = downloaded_cards s \<and> failed_downloads s' = failed_downloads s
    \<and> cards_metadata s' = cards_metadata s \<and> pokemon_classes s' = pokemon_classes s
    \<and> download_summary s' = download_summary s
    \<and> total_cards_expected s' = total_cards_expected s
    \<and> clock s' = Suc (clock s)
    \<and> (\<forall>e. res = Inl e \<longrightarrow> images s' = images s \<and> fault env (clock s) = Some e)
    \<and> (\<forall>x. res = Inr x \<longrightarrow> images s' = AList.update p data (images s))"
  using assms by (auto simp: write_image_def split: option.splits)

text \<open>What a call of \<open>download_image\<close> can do, case by case.\<close>

lemma download_image_cases:
  assumes "download_image env c s = (res, s')"
  shows "cards_metadata s' = cards_metadata s \<and> pokemon_classes s' = pokemon_classes s
    \<and> download_summary s' = download_summary s
    \<and> total_cards_expected s' = total_cards_expected s \<and> clock s \<le> clock s'
    \<and> ((res = Inl KeyboardInterrupt \<and> raised env s s' KeyboardInterrupt
          \<and> downloaded_cards s' = downloaded_cards s \<and> failed_downloads s' = failed_downloads s
          \<and> images s' = images s)
       \<or> (res = Inr False
          \<and> downloaded_cards s' = downloaded_cards s \<and> failed_downloads s' = failed_downloads s @ [c]
          \<and> images s' = images s)
       \<or> (res = Inr True
          \<and> (\<exists>data. images s' =
                AList.update (unique_path (map fst (images s)) (image_filename c) (image_filename c) 1)
                  data (images s))
          \<and> downloaded_cards s' = downloaded_cards s @
               [c\<lparr>local_path := Some (''images/'' @
                     unique_path (map fst (images s)) (image_filename c) (image_filename c) 1),
                  filename := Some
                     (unique_path (map fst (images s)) (image_filename c) (image_filename c) 1)\<rparr>]
          \<and> failed_downloads s' = failed_downloads s))"
proof -
  obtain r1 s1 where g: "get_page_content env (image_url c) 3 s = (r1, s1)"
    by (cases "get_page_content env (image_url c) 3 s")
  have f1: "same_store s s1" and c1: "clock s \<le> clock s1"
    and t1: "total_cards_expected s1 = total_cards_expected s"
    and e1: "\<forall>e. r1 = Inl e \<longrightarrow> raised env s s1 e"
    using get_page_content_frame [OF g] by simp_all
  show ?thesis
  proof (cases r1)
    case (Inl e)
    then have t: "try_download env c s = (Inl e, s1)" using g by (simp add: try_download_def)
    have r: "raised env s s1 e" using e1 Inl by simp
    show ?thesis
    proof (cases "e = KeyboardInterrupt")
      case True
      then have "res = Inl KeyboardInterrupt" "s' = s1"
        using assms t by (simp_all add: download_image_def)
      then show ?thesis using f1 c1 t1 r True by (simp add: same_store_def)
    next
      case False
      then have "res = Inr False" "s' = with_lock (append_failed c) s1"
        using assms t by (simp_all add: download_image_def)
      then show ?thesis using f1 c1 t1
        by (simp add: same_store_def with_lock_def append_failed_def)
    qed
  next
    case (Inr page)
    show ?thesis
    proof (cases page)
      case None
      then have "try_download env c s = (Inr False, append_failed c s1)"
        using g Inr by (simp add: try_download_def)
      then have "res = Inr False" "s' = append_failed c s1"
        using assms by (simp_all add: download_image_def)
      then show ?thesis using f1 c1 t1 by (simp add: same_store_def append_failed_def)
    next
      case (Some response)
      let ?p = "unique_path (map fst (images s1)) (image_filename c) (image_filename c) 1"
      have ps: "?p = unique_path (map fst (images s)) (image_filename c) (image_filename c) 1"
        using f1 by (simp add: same_store_def)
      obtain r2 s2 where w: "write_image env ?p (content response) s1 = (r2, s2)"
        by (cases "write_image env ?p (content response) s1")
      note wf = write_image_frame [OF w]
      show ?thesis
      proof (cases r2)
        case (Inl e)
        then have t: "try_download env c s = (Inl e, s2)"
          using g \<open>r1 = Inr page\<close> Some w by (simp add: try_download_def Let_def)
        have "fault env (clock s1) = Some e" using wf Inl by simp
        then have "raised env s1 s2 e" using wf unfolding raised_def
          by (intro exI [of _ "clock s1"]) simp
        then have r: "raised env s s2 e" using c1 by (rule raised_mono) simp
        show ?thesis
        proof (cases "e = KeyboardInterrupt")
          case True
          then have "res = Inl KeyboardInterrupt" "s' = s2"
            using assms t by (simp_all add: download_image_def)
          then show ?thesis using f1 c1 t1 r True wf Inl by (simp add: same_store_def)
        next
          case False
          then have "res = Inr False" "s' = with_lock (append_failed c) s2"
            using assms t by (simp_all add: download_image_def)
          then show ?thesis using f1 c1 t1 wf Inl
            by (simp add: same_store_def with_lock_def append_failed_def)
        qed
      next
        case (Inr x)
        then have "try_download env c s =
            (Inr True, with_lock (append_downloaded
               (c\<lparr>local_path := Some (''images/'' @ ?p), filename := Some ?p\<rparr>)) s2)"
          using g \<open>r1 = Inr page\<close> Some w by (simp add: try_download_def Let_def)
        then have "res = Inr True"
          "s' = with_lock (append_downloaded
               (c\<lparr>local_path := Some (''images/'' @ ?p), filename := Some ?p\<rparr>)) s2"
          using assms by (simp_all add: download_image_def)
        moreover have "images s2 = AList.update ?p (content response) (images s1)"
          using wf Inr by simp
        ultimately show ?thesis using f1 c1 t1 wf ps
          by (auto simp: same_store_def with_lock_def append_downloaded_def)
      qed
    qed
  qed
qed






text \<open>
  Claim C3 fails on the code. When the three requests for an image fail,
  \<open>download_image\<close> appends the card to \<open>failed_downloads\<close> without taking the lock: the
  trace of the call has the append and no acquisition. The two other paths, the append
  after a successful write and the append in the exception handler, hold the lock.
\<close>

theorem download_image_unlocked_append:
  "download_image failing_env abra empty_disk =
     (Inr False,
      empty_disk\<lparr>failed_downloads := [abra], clock := 5,
        events := [Get (image_url abra), Sleep (Seconds 1), Get (image_url abra),
                   Sleep (Seconds 2), Get (image_url abra), Append_failed]\<rparr>)
   \<and> \<not> lock_discipline False (events (snd (download_image failing_env abra empty_disk)))
   \<and> fst (download_image calm_env abra empty_disk) = Inr True
   \<and> lock_discipline False (events (snd (download_image calm_env abra empty_disk)))
   \<and> fst (download_image full_disk_env abra empty_disk) = Inr False
   \<and> lock_discipline False (events (snd (download_image full_disk_env abra empty_disk)))"
  by code_simp

section \<open>What the phases of a run leave unchanged\<close>


lemma extract_set_links_frame:
  assumes "extract_set_links env s = (res, s')"
  shows "same_store s s' \<and> clock s \<le> clock s'
    \<and> total_cards_expected s' = total_cards_expected s"
proof -
  obtain r1 s1 where g: "get_page_content env base_url 3 s = (r1, s1)"
    by (cases "get_page_content env base_url 3 s")
  have "s' = s1" using assms g by (auto simp: extract_set_links_def split: sum.splits option.splits)
  then show ?thesis using get_page_content_frame [OF g] by simp
qed

lemma count_cards_in_set_frame:
  assumes "count_cards_in_set env u info s = (res, s')"
  shows "same_store s s' \<and> clock s \<le> clock s'
    \<and> total_cards_expected s' = total_cards_expected s"
proof -
  obtain r1 s1 where g: "get_page_content env u 3 s = (r1, s1)"
    by (cases "get_page_content env u 3 s")
  have "s' = s1" using assms g by (auto simp: count_cards_in_set_def split: sum.splits option.splits)
  then show ?thesis using get_page_content_frame [OF g] by simp
qed

lemma get_card_images_from_set_frame:
  assumes "get_card_images_from_set env u info s = (res, s')"
  shows "same_store s s' \<and> clock s \<le> clock s'
    \<and> total_cards_expected s' = total_cards_expected s"
proof -
  obtain r1 s1 where g: "get_page_content env u 3 s = (r1, s1)"
    by (cases "get_page_content env u 3 s")
  have "s' = s1"
    using assms g by (auto simp: get_card_images_from_set_def split: sum.splits option.splits)
  then show ?thesis using get_page_content_frame [OF g] by simp
qed

lemma sleep_same_store:
  assumes "sleep env d s = (res, s')"
  shows "same_store s s' \<and> clock s \<le> clock s'
    \<and> total_cards_expected s' = total_cards_expected s"
  using sleep_frame [OF assms] by simp

lemma count_sets_frame:
  "count_sets env n sc infos s = (res, s') \<Longrightarrow>
   same_store s s' \<and> clock s \<le> clock s'
   \<and> total_cards_expected s' = total_cards_expected s"
proof (induction infos arbitrary: n sc s)
  case Nil
  then show ?case by auto
next
  case (Cons info rest)
  obtain r1 s1 where c: "count_cards_in_set env (url info) info s = (r1, s1)"
    by (cases "count_cards_in_set env (url info) info s")
  note f1 = count_cards_in_set_frame [OF c]
  show ?case
  proof (cases r1)
    case (Inl e)
    show ?thesis
    proof (cases "e = KeyboardInterrupt")
      case True
      then have "s' = s1" using Cons.prems c Inl by simp
      then show ?thesis using f1 by simp
    next
      case False
      then have "count_sets env n (sc @ [(info, 0)]) rest s1 = (res, s')"
        using Cons.prems c Inl by simp
      then show ?thesis using Cons.IH f1 same_store_trans
        by (metis le_trans)
    qed
  next
    case (Inr k)
    obtain r2 s2 where sl: "sleep env Tenth s1 = (r2, s2)" by (cases "sleep env Tenth s1")
    note f2 = sleep_same_store [OF sl]
    have f12: "same_store s s2 \<and> clock s \<le> clock s2
        \<and> total_cards_expected s2 = total_cards_expected s"
      using f1 f2 same_store_trans by (metis le_trans)
    show ?thesis
    proof (cases r2)
      case (Inl e)
      then have "e = KeyboardInterrupt" using sleep_frame [OF sl] by simp
      then have "s' = s2" using Cons.prems c \<open>r1 = Inr k\<close> sl Inl by simp
      then show ?thesis using f12 by simp
    next
      case r2: (Inr x)
      then have "count_sets env (n + k) (sc @ [(info, k)]) rest s2 = (res, s')"
        using Cons.prems c Inr sl by simp
      then show ?thesis using Cons.IH f12 same_store_trans
        by (metis le_trans)
    qed
  qed
qed

lemma count_total_cards_frame:
  assumes "count_total_cards env s = (res, s')"
  shows "same_store s s' \<and> clock s \<le> clock s'
    \<and> total_cards_expected s' = total_cards_expected s"
proof -
  obtain r1 s1 where x: "extract_set_links env s = (r1, s1)"
    by (cases "extract_set_links env s")
  note f1 = extract_set_links_frame [OF x]
  show ?thesis
  proof (cases r1)
    case (Inl e)
    then show ?thesis using assms x f1 by (simp add: count_total_cards_def)
  next
    case (Inr links)
    show ?thesis
    proof (cases "links = []")
      case True
      then show ?thesis using assms x f1 Inr by (simp add: count_total_cards_def)
    next
      case False
      then have "count_sets env 0 [] links s1 = (res, s')"
        using assms x Inr by (simp add: count_total_cards_def)
      then show ?thesis using count_sets_frame f1 same_store_trans by (metis le_trans)
    qed
  qed
qed

lemma write_file_frame:
  assumes "write_file env file_name store s = (res, s')"
  shows "(\<forall>e. res = Inl e \<longrightarrow> s' = tick (Write_metadata file_name) s \<and> fault env (clock s) = Some e)
    \<and> (\<forall>x. res = Inr x \<longrightarrow> s' = store (tick (Write_metadata file_name) s))"
  using assms by (auto simp: write_file_def split: option.splits)

lemma save_metadata_frame:
  assumes "save_metadata env s = (res, s')"
  shows "downloaded_cards s' = downloaded_cards s \<and> failed_downloads s' = failed_downloads s
    \<and> images s' = images s \<and> total_cards_expected s' = total_cards_expected s
    \<and> clock s \<le> clock s'"
  using assms
  by (auto simp: save_metadata_def and_then_def write_file_def split: option.splits)


section \<open>Unique paths\<close>


lemma unique_path_fresh: "unique_path ex orig fp k \<notin> set ex"
proof (induction ex orig fp k rule: unique_path.induct)
  case (1 ex orig fp k)
  show ?case
  proof (cases "fp \<in> set ex")
    case True
    then have "unique_path ex orig fp k = unique_path ex orig (numbered orig k) (k + 1)"
      by (subst unique_path.simps) simp
    then show ?thesis using "1.IH" [OF True] by simp
  next
    case False
    then have "unique_path ex orig fp k = fp" by (subst unique_path.simps) simp
    then show ?thesis using False by simp
  qed
qed

lemma unique_path_numbered:
  "fp \<in> set ex \<Longrightarrow>
   \<exists>j\<ge>k. unique_path ex orig fp k = numbered orig j
     \<and> (\<forall>i. k \<le> i \<and> i < j \<longrightarrow> numbered orig i \<in> set ex)"
proof (induction ex orig fp k rule: unique_path.induct)
  case (1 ex orig fp k)
  have u: "unique_path ex orig fp k = unique_path ex orig (numbered orig k) (k + 1)"
    using "1.prems" by (subst unique_path.simps) simp
  show ?case
  proof (cases "numbered orig k \<in> set ex")
    case False
    then have "unique_path ex orig (numbered orig k) (k + 1) = numbered orig k"
      by (subst unique_path.simps) simp
    then have "unique_path ex orig fp k = numbered orig k
        \<and> (\<forall>i. k \<le> i \<and> i < k \<longrightarrow> numbered orig i \<in> set ex)"
      using u by auto
    then show ?thesis by (intro exI [of _ k]) simp
  next
    case True
    obtain j where j: "k + 1 \<le> j"
      and r: "unique_path ex orig (numbered orig k) (k + 1) = numbered orig j"
      and a: "\<forall>i. k + 1 \<le> i \<and> i < j \<longrightarrow> numbered orig i \<in> set ex"
      using "1.IH" [OF "1.prems" True] by blast
    have "\<forall>i. k \<le> i \<and> i < j \<longrightarrow> numbered orig i \<in> set ex"
    proof (intro allI impI)
      fix i assume i: "k \<le> i \<and> i < j"
      show "numbered orig i \<in> set ex"
      proof (cases "i = k")
        case True
        then show ?thesis using \<open>numbered orig k \<in> set ex\<close> by simp
      next
        case False
        then have "k + 1 \<le> i \<and> i < j" using i by simp
        then show ?thesis using a by blast
      qed
    qed
    moreover have "k \<le> j" using j by simp
    ultimately show ?thesis using u r by auto
  qed
qed

lemma unique_path_free: "fp \<notin> set ex \<Longrightarrow> unique_path ex orig fp k = fp"
  by (subst unique_path.simps) simp

lemma dot_not_clean: "CHR ''.'' \<notin> set (safe_pokemon_name c)"
  by (auto simp: safe_pokemon_name_def clean_name_def is_word_def is_alnum_def is_space_def)

lemma dot_not_code: "CHR ''.'' \<notin> set (safe_set_code c)"
  by (auto simp: safe_set_code_def is_word_def is_alnum_def)

lemma dot_not_word: "is_word x \<Longrightarrow> x \<noteq> CHR ''.''"
  by (auto simp: is_word_def is_alnum_def)

lemma jpg_suffix:
  assumes "CHR ''.'' \<notin> set a" and "a \<noteq> []"
  shows "path_suffix (a @ ''.jpg'') = ''.jpg'' \<and> path_stem (a @ ''.jpg'') = a"
proof -
  have "takeWhile (\<lambda>c. c \<noteq> CHR ''.'') (rev (a @ ''.jpg'')) = ''gpj''" by simp
  then have s: "path_suffix (a @ ''.jpg'') = ''.jpg''"
    using assms(2) unfolding path_suffix_def by (simp add: Let_def)
  then show ?thesis unfolding path_stem_def by simp
qed

lemma numbered_image_filename:
  assumes "\<forall>x\<in>set (card_number c). is_word x"
  shows "numbered (image_filename c) k =
    safe_pokemon_name c @ ''_'' @ safe_set_code c @ ''_'' @ card_number c @ ''_'' @ str k @ ''.jpg''"
proof -
  let ?a = "safe_pokemon_name c @ ''_'' @ safe_set_code c @ ''_'' @ card_number c"
  have "CHR ''.'' \<notin> set (card_number c)" using assms dot_not_word by blast
  then have d: "CHR ''.'' \<notin> set ?a" using dot_not_clean [of c] dot_not_code [of c] by simp
  have n: "?a \<noteq> []" by simp
  have "image_filename c = ?a @ ''.jpg''" by (simp add: image_filename_def)
  then show ?thesis using jpg_suffix [OF d n] by (simp add: numbered_def)
qed



lemma paths_unique_cong:
  "downloaded_cards s' = downloaded_cards s \<Longrightarrow> images s' = images s \<Longrightarrow>
   paths_unique s \<Longrightarrow> paths_unique s'"
  by (simp add: paths_unique_def)

lemma paths_unique_same_store: "same_store s s' \<Longrightarrow> paths_unique s \<Longrightarrow> paths_unique s'"
  by (simp add: paths_unique_def same_store_def)

lemma paths_unique_download_image:
  assumes d: "download_image env c s = (res, s')" and inv: "paths_unique s"
  shows "paths_unique s'"
proof -
  let ?p = "unique_path (map fst (images s)) (image_filename c) (image_filename c) 1"
  let ?c = "c\<lparr>local_path := Some (''images/'' @ ?p), filename := Some ?p\<rparr>"
  note cases = download_image_cases [OF d]
  show ?thesis
  proof (cases "res = Inr True")
    case False
    then have "downloaded_cards s' = downloaded_cards s" and "images s' = images s"
      using cases by auto
    then show ?thesis using inv by (rule paths_unique_cong)
  next
    case True
    then obtain data where im: "images s' = AList.update ?p data (images s)"
      and dl: "downloaded_cards s' = downloaded_cards s @ [?c]"
      using cases by auto
    have fresh: "?p \<notin> fst ` set (images s)"
      using unique_path_fresh [of "map fst (images s)" "image_filename c" "image_filename c" 1]
      by simp
    have keys: "fst ` set (images s') = insert ?p (fst ` set (images s))"
      unfolding im by (simp add: dom_update)
    have new: "Some (''images/'' @ ?p) \<notin> set (map local_path (downloaded_cards s))"
    proof
      assume "Some (''images/'' @ ?p) \<in> set (map local_path (downloaded_cards s))"
      then obtain x where x: "x \<in> set (downloaded_cards s)"
        and lx: "local_path x = Some (''images/'' @ ?p)" by auto
      obtain q where "local_path x = Some (''images/'' @ q)" and "q \<in> fst ` set (images s)"
        using inv x unfolding paths_unique_def by blast
      then have "?p \<in> fst ` set (images s)" using lx by simp
      then show False using fresh by simp
    qed
    have 1: "distinct (map local_path (downloaded_cards s'))"
      using inv new unfolding dl paths_unique_def by simp
    have 2: "\<forall>x\<in>set (downloaded_cards s').
        \<exists>q. local_path x = Some (''images/'' @ q) \<and> q \<in> fst ` set (images s')"
    proof
      fix x assume "x \<in> set (downloaded_cards s')"
      then have "x = ?c \<or> x \<in> set (downloaded_cards s)" unfolding dl by auto
      then show "\<exists>q. local_path x = Some (''images/'' @ q) \<and> q \<in> fst ` set (images s')"
      proof
        assume "x = ?c"
        then have "local_path x = Some (''images/'' @ ?p) \<and> ?p \<in> fst ` set (images s')"
          unfolding keys by simp
        then show ?thesis by blast
      next
        assume "x \<in> set (downloaded_cards s)"
        then obtain q where "local_path x = Some (''images/'' @ q)" and "q \<in> fst ` set (images s)"
          using inv unfolding paths_unique_def by blast
        then have "local_path x = Some (''images/'' @ q) \<and> q \<in> fst ` set (images s')"
          unfolding keys by simp
        then show ?thesis by blast
      qed
    qed
    show ?thesis using 1 2 unfolding paths_unique_def by simp
  qed
qed

lemma paths_unique_download_cards:
  "download_cards env cs s = (res, s') \<Longrightarrow> paths_unique s \<Longrightarrow> paths_unique s'"
proof (induction cs arbitrary: s)
  case Nil
  then show ?case by simp
next
  case (Cons c cs)
  obtain r1 s1 where d: "download_image env c s = (r1, s1)" by (cases "download_image env c s")
  have i1: "paths_unique s1" using paths_unique_download_image [OF d Cons.prems(2)] .
  show ?case
  proof (cases r1)
    case (Inl e)
    then have "s' = s1" using Cons.prems(1) d by simp
    then show ?thesis using i1 by simp
  next
    case (Inr b)
    obtain r2 s2 where sl: "sleep env (Delay_times 1) s1 = (r2, s2)"
      by (cases "sleep env (Delay_times 1) s1")
    have i2: "paths_unique s2"
      using sleep_same_store [OF sl] i1 paths_unique_same_store by blast
    show ?thesis
    proof (cases r2)
      case (Inl e)
      then have "s' = s2" using Cons.prems(1) d \<open>r1 = Inr b\<close> sl by simp
      then show ?thesis using i2 by simp
    next
      case r2: (Inr x)
      then have "download_cards env cs s2 = (res, s')"
        using Cons.prems(1) d Inr sl by simp
      then show ?thesis using Cons.IH i2 by blast
    qed
  qed
qed

lemma paths_unique_save_metadata:
  assumes "save_metadata env s = (res, s')" and "paths_unique s"
  shows "paths_unique s'"
  using save_metadata_frame [OF assms(1)] assms(2) paths_unique_cong by blast

lemma paths_unique_download_set:
  assumes d: "download_set env info s = (res, s')" and inv: "paths_unique s"
  shows "paths_unique s'"
proof -
  obtain r1 s1 where g: "get_card_images_from_set env (url info) info s = (r1, s1)"
    by (cases "get_card_images_from_set env (url info) info s")
  have i1: "paths_unique s1"
    using get_card_images_from_set_frame [OF g] inv paths_unique_same_store by blast
  show ?thesis
  proof (cases r1)
    case (Inl e)
    then have "s' = s1" using d g by (simp add: download_set_def)
    then show ?thesis using i1 by simp
  next
    case (Inr cs)
    show ?thesis
    proof (cases "cs = []")
      case True
      then have "s' = s1" using d g Inr by (simp add: download_set_def)
      then show ?thesis using i1 by simp
    next
      case False
      obtain r2 s2 where dc: "download_cards env cs s1 = (r2, s2)"
        by (cases "download_cards env cs s1")
      have i2: "paths_unique s2" using paths_unique_download_cards [OF dc i1] .
      show ?thesis
      proof (cases r2)
        case (Inl e)
        then have "s' = s2" using d g \<open>r1 = Inr cs\<close> False dc by (simp add: download_set_def)
        then show ?thesis using i2 by simp
      next
        case r2: (Inr x)
        obtain r3 s3 where sv: "save_metadata env s2 = (r3, s3)"
          by (cases "save_metadata env s2")
        have i3: "paths_unique s3" using paths_unique_save_metadata [OF sv i2] .
        show ?thesis
        proof (cases r3)
          case (Inl e)
          then have "s' = s3"
            using d g \<open>r1 = Inr cs\<close> False dc r2 sv by (simp add: download_set_def)
          then show ?thesis using i3 by simp
        next
          case r3: (Inr y)
          then have "sleep env (Delay_times 2) s3 = (res, s')"
            using d g \<open>r1 = Inr cs\<close> False dc r2 sv by (simp add: download_set_def)
          then show ?thesis using sleep_same_store i3 paths_unique_same_store by blast
        qed
      qed
    qed
  qed
qed

lemma paths_unique_download_sets:
  "download_sets env scs s = (res, s') \<Longrightarrow> paths_unique s \<Longrightarrow> paths_unique s'"
proof (induction scs arbitrary: s)
  case Nil
  then show ?case by simp
next
  case (Cons sc scs)
  obtain info expected where sc: "sc = (info, expected)" by (cases sc)
  obtain r1 s1 where d: "download_set env info s = (r1, s1)" by (cases "download_set env info s")
  have i1: "paths_unique s1" using paths_unique_download_set [OF d Cons.prems(2)] .
  show ?case
  proof (cases r1)
    case (Inl e)
    then have "s' = s1" using Cons.prems(1) sc d by simp
    then show ?thesis using i1 by simp
  next
    case (Inr x)
    then have "download_sets env scs s1 = (res, s')" using Cons.prems(1) sc d by simp
    then show ?thesis using Cons.IH i1 by blast
  qed
qed

lemma paths_unique_download_phase:
  assumes d: "download_phase env scs s = (res, s')" and inv: "paths_unique s"
  shows "paths_unique s'"
proof -
  obtain r1 s1 where ds: "download_sets env scs s = (r1, s1)"
    by (cases "download_sets env scs s")
  have i1: "paths_unique s1" using paths_unique_download_sets [OF ds inv] .
  show ?thesis
  proof (cases r1)
    case (Inl e)
    then have "s' = s1" using d ds by (simp add: download_phase_def)
    then show ?thesis using i1 by simp
  next
    case (Inr x)
    obtain r2 s2 where sv: "save_metadata env s1 = (r2, s2)" by (cases "save_metadata env s1")
    have "s' = s2" using d ds Inr sv by (cases r2) (simp_all add: download_phase_def)
    then show ?thesis using paths_unique_save_metadata [OF sv i1] by simp
  qed
qed

lemma paths_unique_expected [simp]:
  "paths_unique (s\<lparr>total_cards_expected := n\<rparr>) = paths_unique s"
  by (simp add: paths_unique_def)

lemma paths_unique_scrape_all_cards:
  assumes d: "scrape_all_cards env skip_count s = (res, s')" and inv: "paths_unique s"
  shows "paths_unique s'"
proof (cases skip_count)
  case False
  obtain r1 s1 where c: "count_total_cards env s = (r1, s1)"
    by (cases "count_total_cards env s")
  have i1: "paths_unique s1"
    using count_total_cards_frame [OF c] inv paths_unique_same_store by blast
  show ?thesis
  proof (cases r1)
    case (Inl e)
    then have "s' = s1" using d c False by (simp add: scrape_all_cards_def)
    then show ?thesis using i1 by simp
  next
    case (Inr p)
    obtain n scs where p: "p = (n, scs)" by (cases p)
    show ?thesis
    proof (cases "n = 0")
      case True
      then have "s' = s1\<lparr>total_cards_expected := n\<rparr>"
        using d c False Inr p by (simp add: scrape_all_cards_def)
      then show ?thesis using i1 by simp
    next
      case n: False
      then have "download_phase env scs (s1\<lparr>total_cards_expected := n\<rparr>) = (res, s')"
        using d c False Inr p by (simp add: scrape_all_cards_def)
      then show ?thesis using paths_unique_download_phase i1 paths_unique_expected by blast
    qed
  qed
next
  case True
  obtain r1 s1 where x: "extract_set_links env s = (r1, s1)"
    by (cases "extract_set_links env s")
  have i1: "paths_unique s1"
    using extract_set_links_frame [OF x] inv paths_unique_same_store by blast
  show ?thesis
  proof (cases r1)
    case (Inl e)
    then have "s' = s1" using d x True by (simp add: scrape_all_cards_def)
    then show ?thesis using i1 by simp
  next
    case (Inr links)
    show ?thesis
    proof (cases "links = []")
      case e: True
      then have "s' = s1" using d x True Inr by (simp add: scrape_all_cards_def)
      then show ?thesis using i1 by simp
    next
      case n: False
      then have "download_phase env (map (\<lambda>info. (info, 0)) links)
          (s1\<lparr>total_cards_expected := 0\<rparr>) = (res, s')"
        using d x True Inr by (simp add: scrape_all_cards_def)
      then show ?thesis using paths_unique_download_phase i1 paths_unique_expected by blast
    qed
  qed
qed

lemma paths_unique_main: "paths_unique (snd (main env skip_count disk))"
proof -
  have i0: "paths_unique (new_scraper disk)"
    by (simp add: paths_unique_def new_scraper_def)
  obtain r1 s1 where sc: "scrape_all_cards env skip_count (new_scraper disk) = (r1, s1)"
    by (cases "scrape_all_cards env skip_count (new_scraper disk)")
  have i1: "paths_unique s1" using paths_unique_scrape_all_cards [OF sc i0] .
  show ?thesis
  proof (cases r1)
    case (Inl e)
    then have m: "main env skip_count disk = save_metadata env s1"
      using sc by (simp add: main_def)
    obtain r2 s2 where sv: "save_metadata env s1 = (r2, s2)" by (cases "save_metadata env s1")
    then show ?thesis using m paths_unique_save_metadata [OF sv i1] by simp
  next
    case (Inr x)
    then have "main env skip_count disk = (Inr (), s1)" using sc by (simp add: main_def)
    then show ?thesis using i1 by simp
  qed
qed



text \<open>
  Claim C2. After any sequential run, from any download directory, the downloaded cards
  have pairwise different local paths, each naming a file of the images directory. A
  successful \<open>download_image\<close> writes to a path that did not exist before the call: the
  file name \<open>{name}_{code}_{number}.jpg\<close> itself when it is free, and otherwise the first
  free one of the names numbered 1, 2, 3 and so on, all the earlier ones existing; for a
  card number made of word characters the name numbered \<open>k\<close> is
  \<open>{name}_{code}_{number}_{k}.jpg\<close>.
\<close>

theorem download_paths_unique:
  "paths_unique (snd (main env skip_count disk))
   \<and> (download_image env c s = (Inr True, s') \<longrightarrow>
        (\<exists>p. downloaded_cards s' = downloaded_cards s @
                [c\<lparr>local_path := Some (''images/'' @ p), filename := Some p\<rparr>]
           \<and> p \<notin> fst ` set (images s) \<and> p \<in> fst ` set (images s')
           \<and> (image_filename c \<notin> fst ` set (images s) \<longrightarrow> p = image_filename c)
           \<and> (image_filename c \<in> fst ` set (images s) \<longrightarrow>
                (\<exists>k\<ge>1. p = numbered (image_filename c) k
                   \<and> (\<forall>j. 1 \<le> j \<and> j < k \<longrightarrow>
                         numbered (image_filename c) j \<in> fst ` set (images s))))))
   \<and> ((\<forall>x\<in>set (card_number c). is_word x) \<longrightarrow>
        numbered (image_filename c) k =
          safe_pokemon_name c @ ''_'' @ safe_set_code c @ ''_'' @ card_number c
            @ ''_'' @ str k @ ''.jpg'')"
proof (intro conjI impI)
  show "paths_unique (snd (main env skip_count disk))" by (rule paths_unique_main)
next
  assume "\<forall>x\<in>set (card_number c). is_word x"
  then show "numbered (image_filename c) k =
      safe_pokemon_name c @ ''_'' @ safe_set_code c @ ''_'' @ card_number c
        @ ''_'' @ str k @ ''.jpg''"
    by (rule numbered_image_filename)
next
  assume d: "download_image env c s = (Inr True, s')"
  let ?ex = "map fst (images s)"
  let ?f = "image_filename c"
  let ?p = "unique_path ?ex ?f ?f 1"
  obtain data where im: "images s' = AList.update ?p data (images s)"
    and dl: "downloaded_cards s' = downloaded_cards s @
        [c\<lparr>local_path := Some (''images/'' @ ?p), filename := Some ?p\<rparr>]"
    using download_image_cases [OF d] by auto
  have 1: "?p \<notin> fst ` set (images s)" using unique_path_fresh [of ?ex ?f ?f 1] by simp
  have 2: "?p \<in> fst ` set (images s')" unfolding im by (simp add: dom_update)
  have 3: "?f \<notin> fst ` set (images s) \<longrightarrow> ?p = ?f"
    using unique_path_free [of ?f ?ex ?f 1] by simp
  have 4: "?f \<in> fst ` set (images s) \<longrightarrow>
      (\<exists>k\<ge>1. ?p = numbered ?f k \<and> (\<forall>j. 1 \<le> j \<and> j < k \<longrightarrow> numbered ?f j \<in> fst ` set (images s)))"
    using unique_path_numbered [of ?f ?ex 1 ?f] by simp
  show "\<exists>p. downloaded_cards s' = downloaded_cards s @
            [c\<lparr>local_path := Some (''images/'' @ p), filename := Some p\<rparr>]
       \<and> p \<notin> fst ` set (images s) \<and> p \<in> fst ` set (images s')
       \<and> (image_filename c \<notin> fst ` set (images s) \<longrightarrow> p = image_filename c)
       \<and> (image_filename c \<in> fst ` set (images s) \<longrightarrow>
            (\<exists>k\<ge>1. p = numbered (image_filename c) k
               \<and> (\<forall>j. 1 \<le> j \<and> j < k \<longrightarrow>
                     numbered (image_filename c) j \<in> fst ` set (images s))))"
    using dl 1 2 3 4 by (intro exI [of _ ?p]) simp
qed

theorem download_paths_unique_witness:
  "paths_unique (snd (main calm_env True empty_disk))
   \<and> fst (download_image calm_env abra crowded) = Inr True
   \<and> image_filename abra \<in> fst ` set (images crowded)
   \<and> (\<exists>p. downloaded_cards (snd (download_image calm_env abra crowded)) =
            [abra\<lparr>local_path := Some (''images/'' @ p), filename := Some p\<rparr>]
          \<and> p \<notin> fst ` set (images crowded))
   \<and> map filename (downloaded_cards (snd (download_image calm_env abra crowded))) =
        [Some ''Abra_BS_1_2.jpg'']
   \<and> numbered (image_filename abra) 2 = ''Abra_BS_1_2.jpg''"
proof -
  have a: "map filename (downloaded_cards (snd (download_image calm_env abra crowded))) =
        [Some ''Abra_BS_1_2.jpg'']"
    by code_simp
  have b: "fst (download_image calm_env abra crowded) = Inr True" by code_simp
  then have d: "download_image calm_env abra crowded =
      (Inr True, snd (download_image calm_env abra crowded))"
    by (simp add: prod_eq_iff)
  have f: "image_filename abra \<in> fst ` set (images crowded)" by code_simp
  have w: "\<forall>x\<in>set (card_number abra). is_word x" by code_simp
  have e: "downloaded_cards crowded = []" by (simp add: crowded_def empty_disk_def)
  have n: "safe_pokemon_name abra @ ''_'' @ safe_set_code abra @ ''_'' @ card_number abra
      @ ''_'' @ str 2 @ ''.jpg'' = ''Abra_BS_1_2.jpg''"
    by code_simp
  note t = download_paths_unique [of calm_env True empty_disk abra crowded
      "snd (download_image calm_env abra crowded)" 2]
  have 1: "paths_unique (snd (main calm_env True empty_disk))" using t by (rule conjunct1)
  have 2: "\<exists>p. downloaded_cards (snd (download_image calm_env abra crowded)) =
            [abra\<lparr>local_path := Some (''images/'' @ p), filename := Some p\<rparr>]
          \<and> p \<notin> fst ` set (images crowded)"
    using t d e by auto
  have 3: "numbered (image_filename abra) 2 = ''Abra_BS_1_2.jpg''"
    using t w n by simp
  show ?thesis using a b f 1 2 3 by simp
qed


section \<open>The count phase\<close>


lemma count_sets_total:
  "count_sets env n sc infos s = (Inr (t, sc'), s') \<Longrightarrow>
   \<exists>added. sc' = sc @ added \<and> map fst added = infos \<and> t = n + sum_list (map snd added)"
proof (induction infos arbitrary: n sc s)
  case Nil
  then show ?case by simp
next
  case (Cons info rest)
  obtain r1 s1 where c: "count_cards_in_set env (url info) info s = (r1, s1)"
    by (cases "count_cards_in_set env (url info) info s")
  show ?case
  proof (cases r1)
    case (Inl e)
    then have ne: "e \<noteq> KeyboardInterrupt" using Cons.prems c by auto
    then have cs: "count_sets env n (sc @ [(info, 0)]) rest s1 = (Inr (t, sc'), s')"
      using Cons.prems c Inl by simp
    obtain added where "sc' = (sc @ [(info, 0)]) @ added" and "map fst added = rest"
      and "t = n + sum_list (map snd added)"
      using Cons.IH [OF cs] by (elim exE conjE)
    then have "sc' = sc @ ((info, 0) # added) \<and> map fst ((info, 0) # added) = info # rest
        \<and> t = n + sum_list (map snd ((info, 0) # added))"
      by simp
    then show ?thesis by (rule exI [of _ "(info, 0) # added"])
  next
    case (Inr k)
    obtain r2 s2 where sl: "sleep env Tenth s1 = (r2, s2)" by (cases "sleep env Tenth s1")
    show ?thesis
    proof (cases r2)
      case (Inl e)
      then have "e = KeyboardInterrupt" using sleep_frame [OF sl] by simp
      then show ?thesis using Cons.prems c \<open>r1 = Inr k\<close> sl Inl by simp
    next
      case r2: (Inr x)
      then have cs: "count_sets env (n + k) (sc @ [(info, k)]) rest s2 = (Inr (t, sc'), s')"
        using Cons.prems c Inr sl by simp
      obtain added where "sc' = (sc @ [(info, k)]) @ added" and "map fst added = rest"
        and "t = (n + k) + sum_list (map snd added)"
        using Cons.IH [OF cs] by (elim exE conjE)
      then have "sc' = sc @ ((info, k) # added) \<and> map fst ((info, k) # added) = info # rest
          \<and> t = n + sum_list (map snd ((info, k) # added))"
        by simp
      then show ?thesis by (rule exI [of _ "(info, k) # added"])
    qed
  qed
qed

lemma count_total_cards_total:
  assumes "count_total_cards env s = (Inr (n, scs), s1)"
  shows "n = sum_list (map snd scs) \<and> (\<exists>s0. extract_set_links env s = (Inr (map fst scs), s0))"
proof -
  obtain r0 s0 where x: "extract_set_links env s = (r0, s0)"
    by (cases "extract_set_links env s")
  show ?thesis
  proof (cases r0)
    case (Inl e)
    then show ?thesis using assms x by (simp add: count_total_cards_def)
  next
    case (Inr links)
    show ?thesis
    proof (cases "links = []")
      case True
      then show ?thesis using assms x Inr by (auto simp: count_total_cards_def)
    next
      case False
      then have cs: "count_sets env 0 [] links s0 = (Inr (n, scs), s1)"
        using assms x Inr by (simp add: count_total_cards_def)
      obtain added where "scs = [] @ added" and "map fst added = links"
        and "n = 0 + sum_list (map snd added)"
        using count_sets_total [OF cs] by (elim exE conjE)
      then show ?thesis using x Inr by simp
    qed
  qed
qed

text \<open>
  Claim C5, as amended. With the count phase enabled, the expected total is the sum of
  the counts of the discovered sets, and the run stops before the download phase exactly
  when that total is 0: when no set is discovered, and also when every discovered set
  counts 0 cards. It then leaves the accumulators and the files untouched. As soon as
  one set counts a card, the run goes on to the download phase over all the counted
  sets. A set whose page cannot be fetched counts 0, and so does a set whose count
  raises an \<open>Exception\<close>; the count goes on with the next set.
\<close>

theorem count_phase_gate:
  "(count_total_cards env s = (Inr (n, scs), s1) \<longrightarrow>
       n = sum_list (map snd scs)
     \<and> (n = 0) = (\<forall>p\<in>set scs. snd p = 0)
     \<and> (\<exists>s0. extract_set_links env s = (Inr (map fst scs), s0))
     \<and> (n = 0 \<longrightarrow>
           scrape_all_cards env False s = (Inr No_cards, s1\<lparr>total_cards_expected := 0\<rparr>)
           \<and> same_store s s1)
     \<and> (n \<noteq> 0 \<longrightarrow>
           scrape_all_cards env False s
             = download_phase env scs (s1\<lparr>total_cards_expected := n\<rparr>)))
   \<and> (fst (get_page_content env u 3 s) = Inr None \<longrightarrow>
         fst (count_cards_in_set env u info s) = Inr 0)
   \<and> (count_cards_in_set env (url info) info s = (Inl e, s2) \<and> e \<noteq> KeyboardInterrupt \<longrightarrow>
         count_sets env k sc (info # rest) s = count_sets env k (sc @ [(info, 0)]) rest s2)"
proof (intro conjI impI)
  assume a: "count_total_cards env s = (Inr (n, scs), s1)"
  note t = count_total_cards_total [OF a]
  show "n = sum_list (map snd scs)" using t by simp
  then show "(n = 0) = (\<forall>p\<in>set scs. snd p = 0)" by auto
  show "\<exists>s0. extract_set_links env s = (Inr (map fst scs), s0)" using t by simp
  show "scrape_all_cards env False s = download_phase env scs (s1\<lparr>total_cards_expected := n\<rparr>)"
    if "n \<noteq> 0"
    using a that by (simp add: scrape_all_cards_def)
  show "scrape_all_cards env False s = (Inr No_cards, s1\<lparr>total_cards_expected := 0\<rparr>)"
    if "n = 0"
    using a that by (simp add: scrape_all_cards_def)
  show "same_store s s1" using count_total_cards_frame [OF a] by simp
next
  assume "fst (get_page_content env u 3 s) = Inr None"
  then show "fst (count_cards_in_set env u info s) = Inr 0"
    by (cases "get_page_content env u 3 s") (simp add: count_cards_in_set_def)
next
  assume "count_cards_in_set env (url info) info s = (Inl e, s2) \<and> e \<noteq> KeyboardInterrupt"
  then show "count_sets env k sc (info # rest) s = count_sets env k (sc @ [(info, 0)]) rest s2"
    by simp
qed

text \<open>
  Claim C5 as stated fails: two sets are discovered, both count 0 cards, and the run
  stops before the download phase, having made no request for a card.
\<close>

theorem count_phase_gate_counterexample:
  "fst (extract_set_links barren_env empty_disk) = Inr two_sets
   \<and> fst (count_total_cards barren_env empty_disk)
       = Inr (0, [(two_sets ! 0, 0), (two_sets ! 1, 0)])
   \<and> fst (scrape_all_cards barren_env False empty_disk) = Inr No_cards
   \<and> events (snd (scrape_all_cards barren_env False empty_disk)) =
       [Get base_url, Get (url (two_sets ! 0)), Sleep Tenth, Get (url (two_sets ! 1)), Sleep Tenth]"
  by code_simp

theorem count_phase_gate_witness:
  "fst (count_total_cards barren_env empty_disk) = Inr (0, [(two_sets ! 0, 0), (two_sets ! 1, 0)])
   \<and> fst (scrape_all_cards barren_env False empty_disk) = Inr No_cards
   \<and> fst (count_total_cards calm_env empty_disk) = Inr (6, [(two_sets ! 0, 3), (two_sets ! 1, 3)])
   \<and> scrape_all_cards calm_env False empty_disk =
       download_phase calm_env [(two_sets ! 0, 3), (two_sets ! 1, 3)]
         ((snd (count_total_cards calm_env empty_disk))\<lparr>total_cards_expected := 6\<rparr>)
   \<and> fst (get_page_content failing_env base_url 3 empty_disk) = Inr None
   \<and> fst (count_cards_in_set failing_env base_url (two_sets ! 0) empty_disk) = Inr 0
   \<and> fst (count_cards_in_set jammed_env (url jungle) jungle empty_disk) = Inl OtherError
   \<and> count_sets jammed_env 0 [] [jungle] empty_disk =
       count_sets jammed_env 0 [(jungle, 0)] []
         (snd (count_cards_in_set jammed_env (url jungle) jungle empty_disk))"
proof -
  have d: "fst (count_cards_in_set jammed_env (url jungle) jungle empty_disk) = Inl OtherError"
    by code_simp
  then have d': "count_cards_in_set jammed_env (url jungle) jungle empty_disk =
      (Inl OtherError, snd (count_cards_in_set jammed_env (url jungle) jungle empty_disk))"
    by (simp add: prod_eq_iff)
  have 4: "count_sets jammed_env 0 [] [jungle] empty_disk =
       count_sets jammed_env 0 [(jungle, 0)] []
         (snd (count_cards_in_set jammed_env (url jungle) jungle empty_disk))"
    using count_phase_gate [of jammed_env empty_disk _ _ _ _ jungle OtherError
        "snd (count_cards_in_set jammed_env (url jungle) jungle empty_disk)" 0 "[]" "[]"] d'
    by simp
  have a: "fst (count_total_cards barren_env empty_disk)
      = Inr (0, [(two_sets ! 0, 0), (two_sets ! 1, 0)])"
    by code_simp
  then have a': "count_total_cards barren_env empty_disk
      = (Inr (0, [(two_sets ! 0, 0), (two_sets ! 1, 0)]), snd (count_total_cards barren_env empty_disk))"
    by (simp add: prod_eq_iff)
  have b: "fst (count_total_cards calm_env empty_disk)
      = Inr (6, [(two_sets ! 0, 3), (two_sets ! 1, 3)])"
    by code_simp
  then have b': "count_total_cards calm_env empty_disk
      = (Inr (6, [(two_sets ! 0, 3), (two_sets ! 1, 3)]), snd (count_total_cards calm_env empty_disk))"
    by (simp add: prod_eq_iff)
  have c: "fst (get_page_content failing_env base_url 3 empty_disk) = Inr None" by code_simp
  have 1: "fst (scrape_all_cards barren_env False empty_disk) = Inr No_cards"
    using count_phase_gate [of barren_env empty_disk 0 "[(two_sets ! 0, 0), (two_sets ! 1, 0)]"
        "snd (count_total_cards barren_env empty_disk)"] a'
    by simp
  have 2: "scrape_all_cards calm_env False empty_disk =
       download_phase calm_env [(two_sets ! 0, 3), (two_sets ! 1, 3)]
         ((snd (count_total_cards calm_env empty_disk))\<lparr>total_cards_expected := 6\<rparr>)"
    using count_phase_gate [of calm_env empty_disk 6 "[(two_sets ! 0, 3), (two_sets ! 1, 3)]"
        "snd (count_total_cards calm_env empty_disk)"] b'
    by simp
  have 3: "fst (count_cards_in_set failing_env base_url (two_sets ! 0) empty_disk) = Inr 0"
    using count_phase_gate [of failing_env empty_disk _ _ _ base_url "two_sets ! 0"] c
    by blast
  show ?thesis using a b c d 1 2 3 4 by simp
qed


end
